theory Spec2Isabelle
  imports Main "HOL-Library.Word"
begin

section \<open>Strings\<close>

text \<open>
  A TypeScript string is a sequence of UTF-16 code units; \<open>length\<close>, \<open>substring\<close>,
  \<open>split\<close> and the regular expressions of the component all work on code units.
  String literals of the source are written with \<open>js\<close>.
\<close>

type_synonym jschar = "16 word"
type_synonym jsstring = "jschar list"

definition js :: "string \<Rightarrow> jsstring" where
  "js s = map of_char s"

definition newline :: jschar where
  "newline = 0x0A"

definition dot :: jschar where
  "dot = 0x2E"

definition blank :: jschar where
  "blank = 0x20"

definition star :: jschar where
  "star = 0x2A"

definition dash :: jschar where
  "dash = 0x2D"

text \<open>
  The characters removed by \<open>String.prototype.trim\<close> and matched by \<open>\s\<close>:
  ECMAScript's WhiteSpace and LineTerminator code points (the same set for both).
\<close>

definition is_space :: "jschar \<Rightarrow> bool" where
  "is_space c \<longleftrightarrow>
     c = 0x09 \<or> c = 0x0A \<or> c = 0x0B \<or> c = 0x0C \<or> c = 0x0D \<or> c = 0x20 \<or>
     c = 0xA0 \<or> c = 0x1680 \<or> (0x2000 \<le> c \<and> c \<le> 0x200A) \<or>
     c = 0x2028 \<or> c = 0x2029 \<or> c = 0x202F \<or> c = 0x205F \<or> c = 0x3000 \<or>
     c = 0xFEFF"

text \<open>The characters matched by \<open>\d\<close>: the ASCII digits.\<close>

definition is_digit :: "jschar \<Rightarrow> bool" where
  "is_digit c \<longleftrightarrow> 0x30 \<le> c \<and> c \<le> 0x39"

text \<open>\<open>s.trim()\<close>\<close>

definition trim :: "jsstring \<Rightarrow> jsstring" where
  "trim s = rev (dropWhile is_space (rev (dropWhile is_space s)))"

text \<open>
  \<open>text.split('\n')\<close>: never the empty array; \<open>''.split('\n')\<close> is \<open>['']\<close>.
  A character other than the line break joins the first line of what follows (there
  always is one: the last case is never reached).
\<close>

fun split_nl :: "jsstring \<Rightarrow> jsstring list" where
  "split_nl [] = [[]]"
| "split_nl (c # cs) =
     (if c = newline then [] # split_nl cs
      else (case split_nl cs of
              l # ls \<Rightarrow> (c # l) # ls
            | [] \<Rightarrow> [[c]]))"

text \<open>\<open>lines.join('\n')\<close>\<close>

fun join_nl :: "jsstring list \<Rightarrow> jsstring" where
  "join_nl [] = []"
| "join_nl [l] = l"
| "join_nl (l # m # ls) = l @ newline # join_nl (m # ls)"

text \<open>
  The template literal \<open>${counter}\<close>: the decimal digits of the counter. The counter
  is a JavaScript number that starts at 1 and grows by 1 for each line, so it stays an
  exact integer far below the range where numbers print in exponent notation; it is
  modelled as \<open>nat\<close>.
\<close>

definition digit_char :: "nat \<Rightarrow> jschar" where
  "digit_char d = of_nat (48 + d)"

fun show_nat :: "nat \<Rightarrow> jsstring" where
  "show_nat n = (if n < 10 then [digit_char n] else show_nat (n div 10) @ [digit_char (n mod 10)])"

declare show_nat.simps [simp del]

section \<open>The Reformatter\<close>

text \<open>
  \<open>s.replace(/^(\d+\.|\*|-)\s*/, '')\<close>: at the start of the string, either a greedy
  run of one or more digits followed by a dot, or a star, or a dash; then all the
  whitespace that follows. Only the first match is replaced. When the digits are not
  followed by a dot no shorter run is, so the first alternative fails without
  backtracking, and the other two cannot match a string that starts with a digit.
\<close>

definition strip_marker :: "jsstring \<Rightarrow> jsstring" where
  "strip_marker s =
     (let ds = takeWhile is_digit s; r = dropWhile is_digit s in
      if ds \<noteq> [] \<and> r \<noteq> [] \<and> hd r = dot then dropWhile is_space (tl r)
      else if s \<noteq> [] \<and> (hd s = star \<or> hd s = dash) then dropWhile is_space (tl s)
      else s)"

text \<open>
  The callback of \<open>lines.map\<close> together with the counter it increments: the lines are
  visited in order, a line that is empty after trimming becomes the empty string and
  leaves the counter alone, any other line gets the counter's value and bumps it.
\<close>

fun number_lines :: "nat \<Rightarrow> jsstring list \<Rightarrow> jsstring list" where
  "number_lines counter [] = []"
| "number_lines counter (line # lines) =
     (if length (trim line) = 0 then [] # number_lines counter lines
      else (show_nat counter @ js ''. '' @ strip_marker (trim line))
             # number_lines (counter + 1) lines)"

definition reformatTextToNumberedList :: "jsstring \<Rightarrow> jsstring" where
  "reformatTextToNumberedList text =
     (if text = [] then []
      else join_nl (number_lines 1 (split_nl text)))"

section \<open>The specification's vocabulary for the Reformatter\<close>

text \<open>A line counts as non-empty when something is left of it after trimming.\<close>

definition nonblank :: "jsstring \<Rightarrow> bool" where
  "nonblank l \<longleftrightarrow> trim l \<noteq> []"

text \<open>
  The fresh ordinal of line \<open>i\<close>: numbering starts at 1 and counts only the non-empty
  lines in front of it.
\<close>

definition ordinal :: "jsstring list \<Rightarrow> nat \<Rightarrow> nat" where
  "ordinal lines i = Suc (length (filter nonblank (take i lines)))"

text \<open>
  Stripping as the specification words it: one of the markers \<open>"<digits>. "\<close>,
  \<open>"* "\<close> and \<open>"- "\<close> at the start of the trimmed line is removed, its blank
  included, and nothing else is.
\<close>

definition spec_strip_marker :: "jsstring \<Rightarrow> jsstring" where
  "spec_strip_marker t =
     (let ds = takeWhile is_digit t; r = dropWhile is_digit t in
      if ds \<noteq> [] \<and> take 2 r = js ''. '' then drop 2 r
      else if take 2 t = js ''* '' \<or> take 2 t = js ''- '' then drop 2 t
      else t)"

section \<open>The text area component\<close>

text \<open>
  The optional property \<open>onAutoCorrect\<close> returns a promise, which either resolves with
  the corrected text or rejects. The model gives the capability as a function from the
  text it is called with to the way its promise settles.
\<close>

datatype outcome = Resolved jsstring | Rejected

record props =
  onAutoCorrect :: "(jsstring \<Rightarrow> outcome) option"
  readOnly :: bool

text \<open>
  An invocation of \<open>handleBlur\<close> suspended at its \<open>await\<close>: the two constants it has
  captured and the promise it waits for.
\<close>

record suspended_blur =
  currentValue :: jsstring
  formattedValue :: jsstring
  promise :: outcome

text \<open>
  The state of one field. \<open>buffer\<close> is the \<open>value\<close> property, which the parent keeps
  and which the text area shows (\<open>e.currentTarget.value\<close>); \<open>cursorPosition\<close> and
  \<open>isCorrecting\<close> are the component's two state hooks; \<open>changes\<close> lists the values
  handed to \<open>onChange\<close> by \<open>triggerChange\<close>, oldest first; \<open>awaiting\<close> lists the
  suspended invocations of \<open>handleBlur\<close>, that is, the correction calls that have not
  settled yet.
\<close>

record field_state =
  buffer :: jsstring
  cursorPosition :: "nat option"
  isCorrecting :: bool
  changes :: "jsstring list"
  awaiting :: "suspended_blur list"

text \<open>
  \<open>triggerChange\<close> reports the new value through \<open>onChange\<close>; the parent of a
  controlled field stores it as the field's value.
\<close>

definition triggerChange :: "field_state \<Rightarrow> jsstring \<Rightarrow> field_state" where
  "triggerChange s newValue = s\<lparr>buffer := newValue, changes := changes s @ [newValue]\<rparr>"

subsection \<open>Line-break interception\<close>

text \<open>\<open>targetLine.match(/^\d+\.\s*/)\<close>: the matched text, or \<open>None\<close> for \<open>null\<close>.\<close>

definition prefixMatch :: "jsstring \<Rightarrow> jsstring option" where
  "prefixMatch targetLine =
     (let ds = takeWhile is_digit targetLine; r = dropWhile is_digit targetLine in
      if ds \<noteq> [] \<and> r \<noteq> [] \<and> hd r = dot
      then Some (ds @ dot # takeWhile is_space (tl r))
      else None)"

text \<open>
  The loop \<open>for (let i = 0; i < targetLineIndex; i++) newCursorPos += finalLines[i].length + 1\<close>.
  It only runs where \<open>finalLines.length > targetLineIndex\<close>, so every index it reads
  is in range.
\<close>

function cursor_loop :: "jsstring list \<Rightarrow> nat \<Rightarrow> nat \<Rightarrow> nat \<Rightarrow> nat" where
  "cursor_loop finalLines targetLineIndex i newCursorPos =
     (if i < targetLineIndex
      then cursor_loop finalLines targetLineIndex (i + 1)
             (newCursorPos + (length (finalLines ! i) + 1))
      else newCursorPos)"
  by pat_completeness auto
termination
  by (relation "measure (\<lambda>(finalLines, targetLineIndex, i, newCursorPos). targetLineIndex - i)") auto

declare cursor_loop.simps [simp del]

text \<open>
  \<open>handleKeyDown\<close>, given the event's \<open>key\<close> and the text area's \<open>selectionStart\<close>.
  \<open>substring\<close> clamps its arguments to the length of the string, as \<open>take\<close> and
  \<open>drop\<close> do.
\<close>

definition handleKeyDown :: "string \<Rightarrow> nat \<Rightarrow> field_state \<Rightarrow> field_state" where
  "handleKeyDown key selectionStart s =
     (if key = ''Enter'' then
        (let textBeforeCursor = take selectionStart (buffer s);
             linesBeforeCursor = split_nl textBeforeCursor;
             currentLineIndex = length linesBeforeCursor - 1;
             textWithNewline =
               take selectionStart (buffer s) @ newline # drop selectionStart (buffer s);
             finalValue = reformatTextToNumberedList textWithNewline;
             finalLines = split_nl finalValue;
             targetLineIndex = currentLineIndex + 1;
             newCursorPos =
               (if length finalLines > targetLineIndex
                then cursor_loop finalLines targetLineIndex 0 0 +
                       (case prefixMatch (finalLines ! targetLineIndex) of
                          Some m \<Rightarrow> length m
                        | None \<Rightarrow> 0)
                else length finalValue)
         in triggerChange (s\<lparr>cursorPosition := Some newCursorPos\<rparr>) finalValue)
      else s)"

text \<open>The handler's \<open>textWithNewline\<close>: the buffer with a line break put in at the cursor.\<close>

abbreviation with_line_break :: "jsstring \<Rightarrow> nat \<Rightarrow> jsstring" where
  "with_line_break b n \<equiv> take n b @ newline # drop n b"

text \<open>
  The cursor offset as the specification words it: the target line is the one after the
  line the cursor was on, that line being found by counting the line breaks in front of
  the cursor.
\<close>

definition previousLineIndex :: "jsstring \<Rightarrow> nat \<Rightarrow> nat" where
  "previousLineIndex b selectionStart = length (filter (\<lambda>c. c = newline) (take selectionStart b))"

definition spec_cursor_offset :: "jsstring \<Rightarrow> nat \<Rightarrow> nat" where
  "spec_cursor_offset b selectionStart =
     (let target = previousLineIndex b selectionStart + 1;
          output = reformatTextToNumberedList
                     (take selectionStart b @ newline # drop selectionStart b);
          outLines = split_nl output
      in if target < length outLines
         then (\<Sum>l \<leftarrow> take target outLines. length l + 1) +
                (case prefixMatch (outLines ! target) of Some m \<Rightarrow> length m | None \<Rightarrow> 0)
         else length output)"

subsection \<open>Blur\<close>

text \<open>
  \<open>handleBlur\<close> run from the blur to the end with nothing happening in between: the
  promise of the correction call settles as the capability says.
\<close>

definition handleBlur :: "props \<Rightarrow> field_state \<Rightarrow> field_state" where
  "handleBlur p s =
     (let currentValue = buffer s;
          formattedValue = reformatTextToNumberedList currentValue;
          formattingOnly =
            (if currentValue \<noteq> formattedValue then triggerChange s formattedValue else s)
      in case onAutoCorrect p of
           None \<Rightarrow> formattingOnly
         | Some correct \<Rightarrow>
             if \<not> readOnly p \<and> 0 < length (trim formattedValue) then
               (let s1 = s\<lparr>isCorrecting := True\<rparr>;
                    s2 = (case correct formattedValue of
                            Resolved correctedValue \<Rightarrow>
                              if currentValue \<noteq> correctedValue
                              then triggerChange s1 correctedValue else s1
                          | Rejected \<Rightarrow>
                              if currentValue \<noteq> formattedValue
                              then triggerChange s1 formattedValue else s1)
                in s2\<lparr>isCorrecting := False\<rparr>)
             else formattingOnly)"

text \<open>
  The same handler in two steps, for the runs in which other events arrive while the
  correction call is outstanding: \<open>handleBlur_begin\<close> is the part up to the \<open>await\<close>,
  \<open>handleBlur_resume\<close> the part after it, run when the promise has settled.
\<close>

definition handleBlur_begin :: "props \<Rightarrow> field_state \<Rightarrow> field_state" where
  "handleBlur_begin p s =
     (let currentValue = buffer s;
          formattedValue = reformatTextToNumberedList currentValue;
          formattingOnly =
            (if currentValue \<noteq> formattedValue then triggerChange s formattedValue else s)
      in case onAutoCorrect p of
           None \<Rightarrow> formattingOnly
         | Some correct \<Rightarrow>
             if \<not> readOnly p \<and> 0 < length (trim formattedValue) then
               s\<lparr>isCorrecting := True,
                 awaiting := awaiting s @
                   [\<lparr>currentValue = currentValue, formattedValue = formattedValue,
                     promise = correct formattedValue\<rparr>]\<rparr>
             else formattingOnly)"

definition handleBlur_resume :: "suspended_blur \<Rightarrow> field_state \<Rightarrow> field_state" where
  "handleBlur_resume c s =
     (let s2 = (case promise c of
                  Resolved correctedValue \<Rightarrow>
                    if currentValue c \<noteq> correctedValue
                    then triggerChange s correctedValue else s
                | Rejected \<Rightarrow>
                    if currentValue c \<noteq> formattedValue c
                    then triggerChange s (formattedValue c) else s)
      in s2\<lparr>isCorrecting := False\<rparr>)"

text \<open>
  The text a suspended handler offers to \<open>triggerChange\<close> once its call has settled:
  the corrected text after a resolution, the reformatted text it captured after a
  rejection.
\<close>

abbreviation settled_text :: "suspended_blur \<Rightarrow> jsstring" where
  "settled_text c \<equiv>
     (case promise c of Resolved correctedValue \<Rightarrow> correctedValue
                      | Rejected \<Rightarrow> formattedValue c)"

subsection \<open>Event sequences\<close>

text \<open>
  What can happen to a field: a key press at a cursor offset, a loss of focus, the
  settling of one of the outstanding correction calls (in any order), and the user's own
  typing, which the text area passes to the parent's \<open>onChange\<close>. A read-only field
  has no key and blur handlers attached.
\<close>

datatype event = KeyDown string nat | Blur | Settled nat | Typed jsstring

fun step :: "props \<Rightarrow> field_state \<Rightarrow> event \<Rightarrow> field_state" where
  "step p s (KeyDown key selectionStart) =
     (if readOnly p then s else handleKeyDown key selectionStart s)"
| "step p s Blur = (if readOnly p then s else handleBlur_begin p s)"
| "step p s (Settled i) =
     (if i < length (awaiting s)
      then handleBlur_resume (awaiting s ! i)
             (s\<lparr>awaiting := take i (awaiting s) @ drop (Suc i) (awaiting s)\<rparr>)
      else s)"
| "step p s (Typed v) = (if readOnly p then s else s\<lparr>buffer := v\<rparr>)"

definition run :: "props \<Rightarrow> field_state \<Rightarrow> event list \<Rightarrow> field_state" where
  "run p s evs = foldl (step p) s evs"

text \<open>
  A field as it is mounted with a given value: \<open>useState(null)\<close> for the cursor
  position, \<open>useState(false)\<close> for the flag, nothing reported and nothing outstanding.
\<close>

definition mounted :: "jsstring \<Rightarrow> field_state" where
  "mounted v =
     \<lparr>buffer = v, cursorPosition = None, isCorrecting = False, changes = [], awaiting = []\<rparr>"

section \<open>Characters, numerals and trimming\<close>

lemma digit_not_space: "is_digit c \<Longrightarrow> \<not> is_space c"
  unfolding is_digit_def is_space_def
  by (auto simp: word_le_nat_alt)

lemma digit_char_digit: "d < 10 \<Longrightarrow> is_digit (digit_char d)"
proof -
  assume "d < 10"
  then have "d \<in> {0, 1, 2, 3, 4, 5, 6, 7, 8, 9}" by auto
  then show ?thesis
    by (auto simp: is_digit_def digit_char_def)
qed

lemma char_facts:
  "\<not> is_space dot" "\<not> is_digit dot" "is_space blank" "is_space newline"
  "\<not> is_space star" "\<not> is_space dash" "\<not> is_digit star" "\<not> is_digit dash"
  "\<not> is_digit newline" "dot \<noteq> newline" "blank \<noteq> newline" "\<not> is_digit blank"
  by (simp_all add: is_space_def is_digit_def dot_def blank_def newline_def star_def dash_def)

lemma js_dot_blank: "js ''. '' = [dot, blank]"
  by (simp add: js_def dot_def blank_def)

lemma show_nat_nonempty: "show_nat n \<noteq> []"
  by (subst show_nat.simps) simp

lemma show_nat_digits: "c \<in> set (show_nat n) \<Longrightarrow> is_digit c"
proof (induction n arbitrary: c rule: show_nat.induct)
  case (1 n)
  show ?case
  proof (cases "n < 10")
    case True
    with "1.prems" show ?thesis
      by (subst (asm) show_nat.simps) (simp add: digit_char_digit)
  next
    case False
    with "1.prems" have "c \<in> set (show_nat (n div 10)) \<or> c = digit_char (n mod 10)"
      by (subst (asm) show_nat.simps) auto
    with False "1.IH" show ?thesis
      by (auto simp: digit_char_digit)
  qed
qed

lemma dropWhile_all_space: "(\<forall>c \<in> set (dropWhile is_space s). is_space c) \<longleftrightarrow> dropWhile is_space s = []"
proof
  assume a: "\<forall>c \<in> set (dropWhile is_space s). is_space c"
  show "dropWhile is_space s = []"
  proof (rule ccontr)
    assume n: "dropWhile is_space s \<noteq> []"
    then have "\<not> is_space (hd (dropWhile is_space s))" by (rule hd_dropWhile)
    moreover from n have "hd (dropWhile is_space s) \<in> set (dropWhile is_space s)" by simp
    ultimately show False using a by blast
  qed
next
  assume e: "dropWhile is_space s = []"
  show "\<forall>c \<in> set (dropWhile is_space s). is_space c" unfolding e by simp
qed

lemma trim_empty_iff: "trim s = [] \<longleftrightarrow> (\<forall>c \<in> set s. is_space c)"
  by (simp add: trim_def dropWhile_all_space)

lemma set_trim: "set (trim s) \<subseteq> set s"
proof
  fix x assume "x \<in> set (trim s)"
  then have "x \<in> set (dropWhile is_space (rev (dropWhile is_space s)))" by (simp add: trim_def)
  then have "x \<in> set (rev (dropWhile is_space s))" by (rule set_dropWhileD)
  then have "x \<in> set (dropWhile is_space s)" by simp
  then show "x \<in> set s" by (rule set_dropWhileD)
qed

lemma trim_id: "s \<noteq> [] \<Longrightarrow> \<not> is_space (hd s) \<Longrightarrow> \<not> is_space (last s) \<Longrightarrow> trim s = s"
proof -
  assume s: "s \<noteq> []" and h: "\<not> is_space (hd s)" and l: "\<not> is_space (last s)"
  from s h have 1: "dropWhile is_space s = s" by (cases s) simp_all
  from s l have "\<not> is_space (hd (rev s))" by (simp add: hd_rev)
  with s have 2: "dropWhile is_space (rev s) = rev s" by (cases "rev s") simp_all
  show ?thesis by (simp add: trim_def 1 2)
qed

lemma last_trim: "trim s \<noteq> [] \<Longrightarrow> \<not> is_space (last (trim s))"
proof -
  assume n: "trim s \<noteq> []"
  let ?r = "dropWhile is_space (rev (dropWhile is_space s))"
  from n have r: "?r \<noteq> []" by (simp add: trim_def)
  then have "\<not> is_space (hd ?r)" by (rule hd_dropWhile)
  with r show ?thesis by (simp add: trim_def last_rev)
qed

lemma hd_trim: "trim s \<noteq> [] \<Longrightarrow> \<not> is_space (hd (trim s))"
proof -
  assume n: "trim s \<noteq> []"
  let ?d = "dropWhile is_space s"
  have "?d = [] \<Longrightarrow> trim s = []"
    unfolding trim_def by (simp only: rev.simps dropWhile.simps)
  with n have d: "?d \<noteq> []" by blast
  then have h: "\<not> is_space (hd ?d)" by (rule hd_dropWhile)
  from d obtain x xs where dx: "?d = x # xs" by (cases ?d) auto
  with h have x: "\<not> is_space x" by simp
  have "dropWhile is_space (rev xs @ [x]) = dropWhile is_space (rev xs) @ [x]"
    using x by (simp add: dropWhile_append)
  then have "trim s = x # rev (dropWhile is_space (rev xs))"
    by (simp add: trim_def dx)
  with x show ?thesis by simp
qed

section \<open>Stripping markers, splitting and joining lines\<close>

lemma last_dropWhile: "dropWhile P xs \<noteq> [] \<Longrightarrow> last (dropWhile P xs) = last xs"
  by (induction xs) (auto split: if_splits)

lemma set_dropWhile_tl: "x \<in> set (dropWhile P (tl t)) \<Longrightarrow> x \<in> set t"
proof -
  assume "x \<in> set (dropWhile P (tl t))"
  then have "x \<in> set (tl t)" by (rule set_dropWhileD)
  then show ?thesis by (cases t) simp_all
qed

lemma set_strip_marker: "set (strip_marker s) \<subseteq> set s"
proof
  fix x assume x: "x \<in> set (strip_marker s)"
  show "x \<in> set s"
  proof (cases "strip_marker s = s")
    case True
    with x show ?thesis by simp
  next
    case False
    then have "strip_marker s = dropWhile is_space (tl (dropWhile is_digit s)) \<or>
               strip_marker s = dropWhile is_space (tl s)"
      by (auto simp: strip_marker_def Let_def split: if_splits)
    with x have "x \<in> set (dropWhile is_digit s) \<or> x \<in> set s"
      by (auto dest: set_dropWhile_tl)
    then show ?thesis by (auto dest: set_dropWhileD)
  qed
qed

lemma strip_marker_numbered:
  assumes "ds \<noteq> []" and "\<forall>c \<in> set ds. is_digit c"
  shows "strip_marker (ds @ dot # rest) = dropWhile is_space rest"
proof -
  from assms(2) have t: "takeWhile is_digit (ds @ dot # rest) = ds"
    by (simp add: char_facts)
  from assms(2) have d: "dropWhile is_digit (ds @ dot # rest) = dot # rest"
    by (simp add: char_facts)
  show ?thesis
    by (simp add: strip_marker_def t d assms(1))
qed

lemma strip_marker_bullet:
  "c = star \<or> c = dash \<Longrightarrow> strip_marker (c # rest) = dropWhile is_space rest"
  by (auto simp: strip_marker_def char_facts)

lemma dropWhile_tl_ends:
  assumes "r \<noteq> []" and "\<not> is_space (last r)" and "dropWhile is_space (tl r) \<noteq> []"
  shows "\<not> is_space (hd (dropWhile is_space (tl r))) \<and>
         \<not> is_space (last (dropWhile is_space (tl r)))"
proof -
  from assms(3) have "tl r \<noteq> []" by auto
  with assms(1) have "last (tl r) = last r" by (simp add: last_tl)
  with assms(3) have "last (dropWhile is_space (tl r)) = last r"
    by (simp add: last_dropWhile)
  with assms(2) hd_dropWhile [OF assms(3)] show ?thesis by simp
qed

lemma strip_marker_ends:
  assumes "s \<noteq> []" and "\<not> is_space (hd s)" and "\<not> is_space (last s)"
  shows "strip_marker s = [] \<or>
         (\<not> is_space (hd (strip_marker s)) \<and> \<not> is_space (last (strip_marker s)))"
proof -
  let ?r = "dropWhile is_digit s"
  let ?num = "takeWhile is_digit s \<noteq> [] \<and> ?r \<noteq> [] \<and> hd ?r = dot"
  let ?bul = "s \<noteq> [] \<and> (hd s = star \<or> hd s = dash)"
  show ?thesis
  proof (cases ?num)
    case True
    have e: "strip_marker s = dropWhile is_space (tl ?r)"
      by (simp only: strip_marker_def Let_def if_P [OF True])
    from True have r: "?r \<noteq> []" by blast
    then have "last ?r = last s" by (rule last_dropWhile)
    with assms(3) r dropWhile_tl_ends [of ?r] show ?thesis
      unfolding e by metis
  next
    case False
    show ?thesis
    proof (cases ?bul)
      case True
      have e: "strip_marker s = dropWhile is_space (tl s)"
        by (simp only: strip_marker_def Let_def if_P [OF True] if_not_P [OF False])
      from assms dropWhile_tl_ends [of s] show ?thesis
        unfolding e by metis
    next
      case nb: False
      have "strip_marker s = s"
        by (simp only: strip_marker_def Let_def if_not_P [OF nb] if_not_P [OF False])
      with assms show ?thesis by simp
    qed
  qed
qed

lemma split_nl_nonempty: "split_nl s \<noteq> []"
  by (induction s) (auto split: list.splits)

lemma split_nl_Cons [simp]:
  "split_nl (c # cs) =
     (if c = newline then [] # split_nl cs
      else (c # hd (split_nl cs)) # tl (split_nl cs))"
  using split_nl_nonempty [of cs] by (cases "split_nl cs") simp_all

declare split_nl.simps(2) [simp del]

lemma split_nl_no_newline: "l \<in> set (split_nl s) \<Longrightarrow> newline \<notin> set l"
proof (induction s arbitrary: l)
  case Nil
  then show ?case by simp
next
  case (Cons c cs)
  obtain h t where ht: "split_nl cs = h # t"
    using split_nl_nonempty [of cs] by (cases "split_nl cs") auto
  with Cons show ?case by (auto split: if_splits)
qed

lemma join_split_nl: "join_nl (split_nl s) = s"
proof (induction s)
  case Nil
  then show ?case by simp
next
  case (Cons c cs)
  obtain h t where ht: "split_nl cs = h # t"
    using split_nl_nonempty [of cs] by (cases "split_nl cs") auto
  with Cons show ?case by (cases t) auto
qed

lemma split_nl_append_line:
  "newline \<notin> set l \<Longrightarrow> split_nl (l @ newline # s) = l # split_nl s"
  by (induction l) auto

lemma split_nl_line: "newline \<notin> set l \<Longrightarrow> split_nl l = [l]"
  by (induction l) auto

lemma split_join_nl:
  "ls \<noteq> [] \<Longrightarrow> \<forall>l \<in> set ls. newline \<notin> set l \<Longrightarrow> split_nl (join_nl ls) = ls"
  by (induction ls rule: join_nl.induct) (auto simp: split_nl_append_line split_nl_line)

lemma split_nl_append:
  "split_nl (a @ newline # b) = split_nl a @ split_nl b"
proof (induction a)
  case Nil
  then show ?case by simp
next
  case (Cons c cs)
  obtain h t where ht: "split_nl cs = h # t"
    using split_nl_nonempty [of cs] by (cases "split_nl cs") auto
  with Cons show ?case by auto
qed

section \<open>Numbering the lines\<close>

lemma length_number_lines: "length (number_lines k ls) = length ls"
  by (induction ls arbitrary: k) auto

lemma numbered_no_newline:
  assumes "newline \<notin> set l"
  shows "newline \<notin> set (show_nat k @ js ''. '' @ strip_marker (trim l))"
proof -
  have "newline \<notin> set (show_nat k)"
    using show_nat_digits [of newline k] by (auto simp: char_facts)
  moreover have "newline \<notin> set (strip_marker (trim l))"
    using assms set_strip_marker [of "trim l"] set_trim [of l] by blast
  ultimately show ?thesis
    using char_facts(10,11) by (auto simp: js_dot_blank)
qed

lemma number_lines_no_newline:
  "\<forall>l \<in> set ls. newline \<notin> set l \<Longrightarrow> l' \<in> set (number_lines k ls) \<Longrightarrow> newline \<notin> set l'"
proof (induction ls arbitrary: k)
  case Nil
  then show ?case by simp
next
  case (Cons a ls)
  then show ?case
    using numbered_no_newline [of a k] by (auto split: if_splits)
qed

lemma takeWhile_show_nat: "takeWhile is_digit (show_nat k @ dot # r) = show_nat k"
  by (simp add: show_nat_digits char_facts)

lemma dropWhile_show_nat: "dropWhile is_digit (show_nat k @ dot # r) = dot # r"
  by (simp add: show_nat_digits char_facts)

lemma hd_show_nat_not_space: "\<not> is_space (hd (show_nat k @ r))"
proof -
  have "hd (show_nat k) \<in> set (show_nat k)" by (simp add: show_nat_nonempty)
  then have "is_digit (hd (show_nat k))" by (rule show_nat_digits)
  then show ?thesis by (simp add: show_nat_nonempty digit_not_space)
qed

lemma trim_numbered:
  assumes "c = [] \<or> (\<not> is_space (hd c) \<and> \<not> is_space (last c))"
  shows "trim (show_nat k @ js ''. '' @ c) \<noteq> [] \<and>
         strip_marker (trim (show_nat k @ js ''. '' @ c)) = c"
proof (cases "c = []")
  case True
  have "dropWhile is_space (show_nat k @ [dot, blank]) = show_nat k @ [dot, blank]"
    using hd_show_nat_not_space [of k "[dot, blank]"] show_nat_nonempty [of k]
    by (cases "show_nat k @ [dot, blank]") auto
  then have "trim (show_nat k @ [dot, blank]) = show_nat k @ [dot]"
    by (simp add: trim_def char_facts)
  then show ?thesis
    using strip_marker_numbered [of "show_nat k" "[]"]
    by (simp add: True js_dot_blank show_nat_nonempty show_nat_digits)
next
  case False
  with assms have c: "\<not> is_space (hd c)" "\<not> is_space (last c)" by auto
  let ?o = "show_nat k @ js ''. '' @ c"
  have "trim ?o = ?o"
    using False c(2) hd_show_nat_not_space [of k "js ''. '' @ c"]
    by (intro trim_id) (auto simp: js_dot_blank)
  moreover have "strip_marker (show_nat k @ dot # blank # c) = dropWhile is_space (blank # c)"
    by (rule strip_marker_numbered) (auto simp: show_nat_nonempty show_nat_digits)
  moreover have "dropWhile is_space (blank # c) = c"
    using False c(1) by (cases c) (auto simp: char_facts)
  ultimately show ?thesis by (simp add: js_dot_blank show_nat_nonempty)
qed

lemma content_ends:
  assumes "trim l \<noteq> []"
  shows "strip_marker (trim l) = [] \<or>
         (\<not> is_space (hd (strip_marker (trim l))) \<and> \<not> is_space (last (strip_marker (trim l))))"
  using assms by (intro strip_marker_ends hd_trim last_trim)

lemma number_lines_idem: "number_lines k (number_lines k ls) = number_lines k ls"
proof (induction ls arbitrary: k)
  case Nil
  then show ?case by simp
next
  case (Cons l ls)
  show ?case
  proof (cases "trim l = []")
    case True
    have "trim [] = []" by (simp add: trim_def)
    with True Cons show ?thesis by simp
  next
    case False
    from trim_numbered [OF content_ends [OF False], of k] False Cons
    show ?thesis by simp
  qed
qed

lemma split_nl_reformat:
  "split_nl (reformatTextToNumberedList text) = number_lines 1 (split_nl text)"
proof (cases "text = []")
  case True
  then show ?thesis by (simp add: reformatTextToNumberedList_def trim_def)
next
  case False
  have "number_lines 1 (split_nl text) \<noteq> []"
    using length_number_lines [of 1 "split_nl text"] split_nl_nonempty [of "text"] by auto
  moreover have "\<forall>l \<in> set (number_lines 1 (split_nl text)). newline \<notin> set l"
    using number_lines_no_newline [of "split_nl text" _ 1] split_nl_no_newline [of _ "text"]
    by blast
  ultimately show ?thesis
    using False by (simp add: reformatTextToNumberedList_def split_join_nl)
qed

lemma reformat_join:
  "reformatTextToNumberedList text = join_nl (number_lines 1 (split_nl text))"
  by (simp add: reformatTextToNumberedList_def trim_def)

section \<open>Lines of the reformatted text\<close>

lemma trim_Nil: "trim [] = []"
  by (simp add: trim_def)

lemma number_lines_Cons:
  "number_lines k (l # ls) =
     (if nonblank l
      then (show_nat k @ js ''. '' @ strip_marker (trim l)) # number_lines (Suc k) ls
      else [] # number_lines k ls)"
  by (simp add: nonblank_def)

lemma number_lines_nth:
  "i < length ls \<Longrightarrow>
   number_lines k ls ! i =
     (if nonblank (ls ! i)
      then show_nat (k + length (filter nonblank (take i ls))) @ js ''. '' @
             strip_marker (trim (ls ! i))
      else [])"
proof (induction ls arbitrary: k i)
  case Nil
  then show ?case by simp
next
  case (Cons l ls)
  show ?case
  proof (cases i)
    case 0
    then show ?thesis by (simp add: number_lines_Cons del: number_lines.simps)
  next
    case (Suc j)
    with Cons.prems have j: "j < length ls" by simp
    show ?thesis
      using Cons.IH [OF j] by (simp add: Suc number_lines_Cons del: number_lines.simps)
  qed
qed

lemma nonblank_numbered:
  "nonblank l \<Longrightarrow> nonblank (show_nat k @ js ''. '' @ strip_marker (trim l))"
  unfolding nonblank_def
  using trim_numbered [OF content_ends, of l k] by blast

lemma number_lines_blank_count:
  "length (filter (\<lambda>l. \<not> nonblank l) (number_lines k ls)) =
   length (filter (\<lambda>l. \<not> nonblank l) ls)"
proof (induction ls arbitrary: k)
  case Nil
  then show ?case by simp
next
  case (Cons l ls)
  show ?case
  proof (cases "nonblank l")
    case True
    with nonblank_numbered [OF True, of k] Cons show ?thesis
      by (simp add: number_lines_Cons del: number_lines.simps)
  next
    case False
    have "\<not> nonblank []" by (simp add: nonblank_def trim_Nil)
    with False Cons show ?thesis
      by (simp add: number_lines_Cons del: number_lines.simps)
  qed
qed

lemma strip_marker_no_marker:
  assumes "hd t \<noteq> star" and "hd t \<noteq> dash"
    and "\<forall>ds rest. ds \<noteq> [] \<and> list_all is_digit ds \<longrightarrow> t \<noteq> ds @ dot # rest"
  shows "strip_marker t = t"
proof -
  let ?ds = "takeWhile is_digit t"
  let ?r = "dropWhile is_digit t"
  have "\<not> (?ds \<noteq> [] \<and> ?r \<noteq> [] \<and> hd ?r = dot)"
  proof
    assume a: "?ds \<noteq> [] \<and> ?r \<noteq> [] \<and> hd ?r = dot"
    then have "?r = dot # tl ?r" by (cases ?r) auto
    then have "t = ?ds @ dot # tl ?r"
      using takeWhile_dropWhile_id [of is_digit t] by simp
    moreover have "list_all is_digit ?ds"
      by (auto simp: list_all_iff dest: set_takeWhileD)
    ultimately show False using a assms(3) by blast
  qed
  then have n: "\<not> (takeWhile is_digit t \<noteq> [] \<and> dropWhile is_digit t \<noteq> [] \<and>
                  hd (dropWhile is_digit t) = dot)" .
  from assms(1,2) have b: "\<not> (t \<noteq> [] \<and> (hd t = star \<or> hd t = dash))" by blast
  show ?thesis
    by (simp only: strip_marker_def Let_def if_not_P [OF n] if_not_P [OF b])
qed

section \<open>The cursor offset after a line break\<close>

lemma cursor_loop_sum:
  "t \<le> length L \<Longrightarrow>
   cursor_loop L t i acc = acc + (\<Sum>l \<leftarrow> take (t - i) (drop i L). length l + 1)"
proof (induction L t i acc rule: cursor_loop.induct)
  case (1 L t i acc)
  show ?case
  proof (cases "i < t")
    case True
    with "1.prems" have il: "i < length L" by simp
    from True have "t - i = Suc (t - (i + 1))" by simp
    then have "take (t - i) (drop i L) = L ! i # take (t - (i + 1)) (drop (i + 1) L)"
      using il by (simp add: Cons_nth_drop_Suc [symmetric])
    with "1.IH" [OF True "1.prems"] True show ?thesis
      by (subst cursor_loop.simps) simp
  next
    case False
    then show ?thesis by (subst cursor_loop.simps) simp
  qed
qed

lemma length_split_nl: "length (split_nl x) = Suc (length (filter (\<lambda>c. c = newline) x))"
proof (induction x)
  case Nil
  then show ?case by simp
next
  case (Cons c cs)
  then show ?case using split_nl_nonempty [of cs] by (cases "split_nl cs") auto
qed

lemma handleKeyDown_Enter:
  "handleKeyDown ''Enter'' n s =
     triggerChange (s\<lparr>cursorPosition := Some (spec_cursor_offset (buffer s) n)\<rparr>)
       (reformatTextToNumberedList (take n (buffer s) @ newline # drop n (buffer s)))"
proof -
  let ?out = "reformatTextToNumberedList (take n (buffer s) @ newline # drop n (buffer s))"
  let ?t = "length (split_nl (take n (buffer s))) - 1 + 1"
  have t: "?t = previousLineIndex (buffer s) n + 1"
    by (simp add: length_split_nl previousLineIndex_def)
  have "?t < length (split_nl ?out) \<Longrightarrow>
        cursor_loop (split_nl ?out) ?t 0 0 = (\<Sum>l \<leftarrow> take ?t (split_nl ?out). length l + 1)"
    using cursor_loop_sum [of ?t "split_nl ?out" 0 0] by simp
  then show ?thesis
    unfolding handleKeyDown_def spec_cursor_offset_def Let_def t [symmetric]
    by (auto simp del: split_nl_Cons)
qed

lemma target_line_exists:
  "previousLineIndex b n + 1 <
     length (split_nl (reformatTextToNumberedList (take n b @ newline # drop n b)))"
  by (simp add: split_nl_reformat length_number_lines split_nl_append length_split_nl
        previousLineIndex_def)


lemma join_nl_Cons: "ys \<noteq> [] \<Longrightarrow> join_nl (a # ys) = a @ newline # join_nl ys"
  by (cases ys) simp_all

lemma join_nl_snoc: "A \<noteq> [] \<Longrightarrow> join_nl (A @ [x]) = join_nl A @ newline # x"
  by (induction A rule: join_nl.induct) (simp_all add: join_nl_Cons)

lemma length_join_nl_snoc:
  "length (join_nl (A @ [x])) = (\<Sum>l \<leftarrow> A. length l + 1) + length x"
  by (induction A) (simp_all add: join_nl_Cons)

lemma join_nl_split_line:
  "\<exists>rest. join_nl (A @ (pre @ post) # B) = join_nl (A @ [pre]) @ rest"
proof (induction A)
  case Nil
  show ?case by (cases B) simp_all
next
  case (Cons a A)
  then obtain rest where "join_nl (A @ (pre @ post) # B) = join_nl (A @ [pre]) @ rest" by blast
  then show ?case by (simp add: join_nl_Cons)
qed

lemma prefixMatch_is_prefix:
  "\<exists>post. line = (case prefixMatch line of Some m \<Rightarrow> m | None \<Rightarrow> []) @ post"
proof (cases "prefixMatch line")
  case None
  then show ?thesis by simp
next
  case (Some m)
  let ?r = "dropWhile is_digit line"
  from Some have r: "?r \<noteq> []" "hd ?r = dot"
    and m: "m = takeWhile is_digit line @ dot # takeWhile is_space (tl ?r)"
    by (auto simp: prefixMatch_def Let_def split: if_splits)
  from r have "?r = dot # tl ?r" by (cases ?r) auto
  then have "?r = dot # takeWhile is_space (tl ?r) @ dropWhile is_space (tl ?r)" by simp
  then have "line = m @ dropWhile is_space (tl ?r)"
    unfolding m using takeWhile_dropWhile_id [of is_digit line] by (metis append.assoc append_Cons)
  with Some show ?thesis by auto
qed

lemma cursor_after_prefix:
  assumes "t < length L"
  shows "take ((\<Sum>l \<leftarrow> take t L. length l + 1) +
               length (case prefixMatch (L ! t) of Some m \<Rightarrow> m | None \<Rightarrow> []))
           (join_nl L) =
         join_nl (take t L @ [case prefixMatch (L ! t) of Some m \<Rightarrow> m | None \<Rightarrow> []])"
proof -
  let ?pre = "case prefixMatch (L ! t) of Some m \<Rightarrow> m | None \<Rightarrow> []"
  obtain post where post: "L ! t = ?pre @ post"
    using prefixMatch_is_prefix [of "L ! t"] by blast
  from assms have "L = take t L @ (L ! t) # drop (Suc t) L"
    by (simp add: id_take_nth_drop [symmetric])
  with post have "L = take t L @ (?pre @ post) # drop (Suc t) L" by simp
  then obtain rest where e: "join_nl L = join_nl (take t L @ [?pre]) @ rest"
    using join_nl_split_line [of "take t L" ?pre post "drop (Suc t) L"] by auto
  have len: "(\<Sum>l \<leftarrow> take t L. length l + 1) + length ?pre =
             length (join_nl (take t L @ [?pre]))"
    by (rule length_join_nl_snoc [symmetric])
  show ?thesis
    unfolding len e by simp
qed

lemma prefixMatch_Nil: "prefixMatch [] = None"
  by (simp add: prefixMatch_def)

lemma prefixMatch_numbered:
  assumes "c = [] \<or> \<not> is_space (hd c)"
  shows "prefixMatch (show_nat k @ js ''. '' @ c) = Some (show_nat k @ js ''. '')"
proof -
  have "takeWhile is_space (blank # c) = [blank]"
    using assms by (cases c) (auto simp: char_facts)
  then show ?thesis
    using takeWhile_show_nat [of k "blank # c"] dropWhile_show_nat [of k "blank # c"]
    by (simp add: prefixMatch_def js_dot_blank show_nat_nonempty)
qed

lemma prefixMatch_number_lines:
  assumes "t < length ls"
  shows "prefixMatch (number_lines k ls ! t) =
           (if nonblank (ls ! t)
            then Some (show_nat (k + length (filter nonblank (take t ls))) @ js ''. '')
            else None)"
proof (cases "nonblank (ls ! t)")
  case True
  then have "trim (ls ! t) \<noteq> []" by (simp add: nonblank_def)
  from content_ends [OF this]
  have "strip_marker (trim (ls ! t)) = [] \<or> \<not> is_space (hd (strip_marker (trim (ls ! t))))"
    by blast
  from prefixMatch_numbered [OF this] True assms show ?thesis
    by (simp add: number_lines_nth)
next
  case False
  with assms show ?thesis by (simp add: number_lines_nth prefixMatch_Nil)
qed


section \<open>The Reformatter's contract\<close>

text \<open>
  The line \<open>"-5 mmHg"\<close> starts with none of the markers \<open>"<digits>. "\<close>, \<open>"* "\<close>,
  \<open>"- "\<close>, so as the specification words it the line would come out as
  \<open>"1. -5 mmHg"\<close>; the Reformatter gives \<open>"1. 5 mmHg"\<close>, since its pattern asks for
  no blank after the dash. In \<open>"-  a"\<close> the marker \<open>"- "\<close> is followed by a second
  blank, which the Reformatter removes as well.
\<close>

theorem dash_without_blank_is_stripped:
  "reformatTextToNumberedList (js ''-5 mmHg'') = js ''1. 5 mmHg'' \<and>
   show_nat 1 @ js ''. '' @ spec_strip_marker (trim (js ''-5 mmHg'')) = js ''1. -5 mmHg'' \<and>
   js ''1. 5 mmHg'' \<noteq> js ''1. -5 mmHg'' \<and>
   reformatTextToNumberedList (js ''-  a'') = js ''1. a'' \<and>
   show_nat 1 @ js ''. '' @ spec_strip_marker (trim (js ''-  a'')) = js ''1.  a'' \<and>
   js ''1. a'' \<noteq> js ''1.  a''"
  by code_simp

text \<open>
  Claim C1, amended. In the output of \<open>reformatTextToNumberedList\<close>, every line of
  the input that is non-empty after trimming stands at the same line index as the fresh
  ordinal (1 plus the number of non-empty lines in front of it), a dot, a space, and the
  content of the trimmed line. The content is the trimmed line without one leading
  marker and without any whitespace that follows the marker, where a marker is a run of
  digits with a dot after it, or a single star, or a single dash, whether or not a blank
  follows; a trimmed line that starts with none of these is its own content. The input
  \<open>"* a\n\nb\n3. c"\<close> gives \<open>"1. a\n\n2. b\n3. c"\<close>.
\<close>

theorem reformat_numbers_and_strips:
  "(\<forall>i < length (split_nl text). nonblank (split_nl text ! i) \<longrightarrow>
      split_nl (reformatTextToNumberedList text) ! i =
        show_nat (ordinal (split_nl text) i) @ js ''. '' @
          strip_marker (trim (split_nl text ! i))) \<and>
   (\<forall>ds rest. ds \<noteq> [] \<and> list_all is_digit ds \<longrightarrow>
      strip_marker (ds @ dot # rest) = dropWhile is_space rest) \<and>
   (\<forall>rest. strip_marker (star # rest) = dropWhile is_space rest \<and>
           strip_marker (dash # rest) = dropWhile is_space rest) \<and>
   (\<forall>t. hd t \<noteq> star \<and> hd t \<noteq> dash \<and>
        (\<forall>ds rest. ds \<noteq> [] \<and> list_all is_digit ds \<longrightarrow> t \<noteq> ds @ dot # rest) \<longrightarrow>
      strip_marker t = t) \<and>
   reformatTextToNumberedList (js ''* a\<newline>\<newline>b\<newline>3. c'') =
     js ''1. a\<newline>\<newline>2. b\<newline>3. c''"
proof (intro conjI allI impI)
  fix i
  assume "i < length (split_nl text)" and "nonblank (split_nl text ! i)"
  then show "split_nl (reformatTextToNumberedList text) ! i =
        show_nat (ordinal (split_nl text) i) @ js ''. '' @
          strip_marker (trim (split_nl text ! i))"
    by (simp add: split_nl_reformat number_lines_nth ordinal_def)
next
  fix ds rest
  assume "ds \<noteq> [] \<and> list_all is_digit ds"
  then show "strip_marker (ds @ dot # rest) = dropWhile is_space rest"
    by (intro strip_marker_numbered) (simp_all add: list_all_iff)
next
  fix rest
  show "strip_marker (star # rest) = dropWhile is_space rest"
    by (rule strip_marker_bullet) simp
  show "strip_marker (dash # rest) = dropWhile is_space rest"
    by (rule strip_marker_bullet) simp
next
  fix t
  assume "hd t \<noteq> star \<and> hd t \<noteq> dash \<and>
        (\<forall>ds rest. ds \<noteq> [] \<and> list_all is_digit ds \<longrightarrow> t \<noteq> ds @ dot # rest)"
  then show "strip_marker t = t"
    by (intro strip_marker_no_marker) blast+
next
  show "reformatTextToNumberedList (js ''* a\<newline>\<newline>b\<newline>3. c'') =
     js ''1. a\<newline>\<newline>2. b\<newline>3. c''"
    by code_simp
qed

theorem reformat_numbers_and_strips_witness:
  "3 < length (split_nl (js ''* a\<newline>\<newline>b\<newline>3. c'')) \<and>
   nonblank (split_nl (js ''* a\<newline>\<newline>b\<newline>3. c'') ! 3) \<and>
   ordinal (split_nl (js ''* a\<newline>\<newline>b\<newline>3. c'')) 3 = 3 \<and>
   trim (split_nl (js ''* a\<newline>\<newline>b\<newline>3. c'') ! 3) = js ''3'' @ dot # js '' c'' \<and>
   js ''3'' \<noteq> [] \<and> list_all is_digit (js ''3'') \<and>
   split_nl (reformatTextToNumberedList (js ''* a\<newline>\<newline>b\<newline>3. c'')) ! 3 = js ''3. c'' \<and>
   hd (js ''b'') \<noteq> star \<and> hd (js ''b'') \<noteq> dash \<and> \<not> is_digit (hd (js ''b'')) \<and>
   strip_marker (js ''b'') = js ''b''"
proof -
  let ?x = "js ''* a\<newline>\<newline>b\<newline>3. c''"
  have h1: "3 < length (split_nl ?x)" by code_simp
  have h2: "nonblank (split_nl ?x ! 3)" by code_simp
  have h3: "ordinal (split_nl ?x) 3 = 3" by code_simp
  have h4: "trim (split_nl ?x ! 3) = js ''3'' @ dot # js '' c''" by code_simp
  have h5: "js ''3'' \<noteq> [] \<and> list_all is_digit (js ''3'')" by code_simp
  have h6: "show_nat 3 @ js ''. '' @ dropWhile is_space (js '' c'') = js ''3. c''" by code_simp
  have b1: "hd (js ''b'') \<noteq> star" by code_simp
  have b2: "hd (js ''b'') \<noteq> dash" by code_simp
  have b0: "\<not> is_digit (hd (js ''b''))" by code_simp
  have b3: "\<forall>ds rest. ds \<noteq> [] \<and> list_all is_digit ds \<longrightarrow> js ''b'' \<noteq> ds @ dot # rest"
  proof (intro allI impI notI)
    fix ds rest
    assume d: "ds \<noteq> [] \<and> list_all is_digit ds" and e: "js ''b'' = ds @ dot # rest"
    from d have "is_digit (hd ds)" by (cases ds) simp_all
    moreover from d e have "hd (js ''b'') = hd ds" by (cases ds) simp_all
    ultimately show False using b0 by simp
  qed
  note inst = reformat_numbers_and_strips [of ?x]
  from inst h1 h2
  have a: "split_nl (reformatTextToNumberedList ?x) ! 3 =
        show_nat (ordinal (split_nl ?x) 3) @ js ''. '' @ strip_marker (trim (split_nl ?x ! 3))"
    by blast
  from inst h5 have "strip_marker (js ''3'' @ dot # js '' c'') = dropWhile is_space (js '' c'')"
    by blast
  with a h3 h4 h6 have r3: "split_nl (reformatTextToNumberedList ?x) ! 3 = js ''3. c''"
    by simp
  from inst b1 b2 b3 have "strip_marker (js ''b'') = js ''b''" by blast
  with h1 h2 h3 h4 h5 r3 b1 b2 b0 show ?thesis by blast
qed

text \<open>
  Claim C2. The Reformatter is idempotent: reformatting its own output changes nothing.
\<close>

theorem reformat_idempotent:
  "reformatTextToNumberedList (reformatTextToNumberedList x) = reformatTextToNumberedList x"
proof -
  have "reformatTextToNumberedList (reformatTextToNumberedList x)
        = join_nl (number_lines 1 (split_nl (reformatTextToNumberedList x)))"
    by (rule reformat_join)
  also have "\<dots> = join_nl (number_lines 1 (split_nl x))"
    by (simp only: split_nl_reformat number_lines_idem)
  also have "\<dots> = reformatTextToNumberedList x"
    by (rule reformat_join [symmetric])
  finally show ?thesis .
qed

text \<open>
  A line of two spaces is blank, and the Reformatter puts the empty line in its place:
  the characters of a blank line are not kept.
\<close>

theorem blank_line_not_verbatim:
  "split_nl (js ''a\<newline>  \<newline>b'') ! 1 = js ''  '' \<and>
   \<not> nonblank (split_nl (js ''a\<newline>  \<newline>b'') ! 1) \<and>
   split_nl (reformatTextToNumberedList (js ''a\<newline>  \<newline>b'')) ! 1 = [] \<and>
   split_nl (reformatTextToNumberedList (js ''a\<newline>  \<newline>b'')) ! 1
     \<noteq> split_nl (js ''a\<newline>  \<newline>b'') ! 1"
  by code_simp

text \<open>
  Claim C3, amended. A line that is blank (empty after trimming) comes out as the empty
  line at the same line index, with no numeral prefix; a non-blank line comes out
  non-blank; the number of lines and the number of blank lines are unchanged. So an
  empty line is kept as it is, and a line of whitespace only loses its whitespace.
\<close>

theorem blank_lines_become_empty:
  "(\<forall>i < length (split_nl text).
      (\<not> nonblank (split_nl text ! i) \<longrightarrow>
         split_nl (reformatTextToNumberedList text) ! i = []) \<and>
      (nonblank (split_nl text ! i) \<longrightarrow>
         nonblank (split_nl (reformatTextToNumberedList text) ! i))) \<and>
   length (split_nl (reformatTextToNumberedList text)) = length (split_nl text) \<and>
   length (filter (\<lambda>l. \<not> nonblank l) (split_nl (reformatTextToNumberedList text))) =
     length (filter (\<lambda>l. \<not> nonblank l) (split_nl text))"
  by (simp add: split_nl_reformat number_lines_nth nonblank_numbered
        length_number_lines number_lines_blank_count)

theorem blank_lines_become_empty_witness:
  "1 < length (split_nl (js ''a\<newline>  \<newline>b'')) \<and>
   \<not> nonblank (split_nl (js ''a\<newline>  \<newline>b'') ! 1) \<and>
   split_nl (reformatTextToNumberedList (js ''a\<newline>  \<newline>b'')) ! 1 = [] \<and>
   0 < length (split_nl (js ''a\<newline>  \<newline>b'')) \<and>
   nonblank (split_nl (js ''a\<newline>  \<newline>b'') ! 0) \<and>
   nonblank (split_nl (reformatTextToNumberedList (js ''a\<newline>  \<newline>b'')) ! 0)"
proof -
  let ?x = "js ''a\<newline>  \<newline>b''"
  have h1: "1 < length (split_nl ?x)" by code_simp
  have h2: "\<not> nonblank (split_nl ?x ! 1)" by code_simp
  have h3: "0 < length (split_nl ?x)" by code_simp
  have h4: "nonblank (split_nl ?x ! 0)" by code_simp
  from blank_lines_become_empty [of ?x] h1 h2 h3 h4 show ?thesis by blast
qed

text \<open>
  Claim C10. The output of \<open>reformatTextToNumberedList\<close> has exactly as many lines
  as its input, and the empty input gives the empty output.
\<close>

theorem reformat_preserves_line_count:
  "length (split_nl (reformatTextToNumberedList text)) = length (split_nl text) \<and>
   reformatTextToNumberedList [] = []"
proof
  show "length (split_nl (reformatTextToNumberedList text)) = length (split_nl text)"
    by (simp only: split_nl_reformat length_number_lines)
  show "reformatTextToNumberedList [] = []"
    by (simp add: reformatTextToNumberedList_def)
qed


section \<open>Line-break interception\<close>

lemma spec_cursor_offset_target:
  "spec_cursor_offset b n =
     (\<Sum>l \<leftarrow> take (previousLineIndex b n + 1)
                  (split_nl (reformatTextToNumberedList (with_line_break b n))). length l + 1) +
     length (case prefixMatch
                   (split_nl (reformatTextToNumberedList (with_line_break b n)) !
                      (previousLineIndex b n + 1))
             of Some m \<Rightarrow> m | None \<Rightarrow> [])"
  using target_line_exists [where b = b and n = n]
  by (simp add: spec_cursor_offset_def Let_def split: option.split del: split_nl_Cons)

lemma text_before_cursor:
  "take (spec_cursor_offset b n) (reformatTextToNumberedList (with_line_break b n)) =
     join_nl (take (previousLineIndex b n + 1)
                (split_nl (reformatTextToNumberedList (with_line_break b n)))) @
     newline #
     (case prefixMatch
             (split_nl (reformatTextToNumberedList (with_line_break b n)) !
                (previousLineIndex b n + 1))
      of Some m \<Rightarrow> m | None \<Rightarrow> [])"
proof -
  let ?out = "reformatTextToNumberedList (with_line_break b n)"
  let ?L = "split_nl ?out"
  let ?t = "previousLineIndex b n + 1"
  let ?pre = "case prefixMatch (?L ! ?t) of Some m \<Rightarrow> m | None \<Rightarrow> []"
  have t: "?t < length ?L" by (rule target_line_exists)
  then have ne: "take ?t ?L \<noteq> []" by auto
  have "take (spec_cursor_offset b n) (join_nl ?L) = join_nl (take ?t ?L @ [?pre])"
    unfolding spec_cursor_offset_target by (rule cursor_after_prefix [OF t])
  also have "\<dots> = join_nl (take ?t ?L) @ newline # ?pre"
    by (rule join_nl_snoc [OF ne])
  finally show ?thesis by (simp only: join_split_nl)
qed

lemma target_line_prefix:
  "prefixMatch (split_nl (reformatTextToNumberedList (with_line_break b n)) !
                  (previousLineIndex b n + 1)) =
     (if nonblank (split_nl (with_line_break b n) ! (previousLineIndex b n + 1))
      then Some (show_nat (ordinal (split_nl (with_line_break b n)) (previousLineIndex b n + 1))
                 @ js ''. '')
      else None)"
proof -
  have "previousLineIndex b n + 1 < length (split_nl (with_line_break b n))"
    using target_line_exists [where b = b and n = n] by (simp only: split_nl_reformat length_number_lines)
  from prefixMatch_number_lines [OF this, of 1] show ?thesis
    by (simp only: split_nl_reformat ordinal_def) simp
qed

lemma reformat_a_b: 
  "reformatTextToNumberedList (take 4 (js ''1. a\<newline>2. b'') @ newline # drop 4 (js ''1. a\<newline>2. b''))
     = js ''1. a\<newline>\<newline>2. b''"
  by code_simp

lemma cursor_a_b: "spec_cursor_offset (js ''1. a\<newline>2. b'') 4 = 5"
  by code_simp

lemma a_b_differs: "js ''1. a\<newline>\<newline>2. b'' \<noteq> js ''1. a\<newline>2. \<newline>3. b''"
  by code_simp

lemma reformat_nine_end:
  "reformatTextToNumberedList
     (take 44 (js ''1. a\<newline>2. b\<newline>3. c\<newline>4. d\<newline>5. e\<newline>6. f\<newline>7. g\<newline>8. h\<newline>9. i'') @ newline #
      drop 44 (js ''1. a\<newline>2. b\<newline>3. c\<newline>4. d\<newline>5. e\<newline>6. f\<newline>7. g\<newline>8. h\<newline>9. i''))
   = js ''1. a\<newline>2. b\<newline>3. c\<newline>4. d\<newline>5. e\<newline>6. f\<newline>7. g\<newline>8. h\<newline>9. i\<newline>''"
  by code_simp

lemma cursor_nine_end:
  "spec_cursor_offset (js ''1. a\<newline>2. b\<newline>3. c\<newline>4. d\<newline>5. e\<newline>6. f\<newline>7. g\<newline>8. h\<newline>9. i'') 44 = 45"
  by code_simp

lemma lines_nine_end:
  "map nonblank (split_nl (js ''1. a\<newline>2. b\<newline>3. c\<newline>4. d\<newline>5. e\<newline>6. f\<newline>7. g\<newline>8. h\<newline>9. i\<newline>''))
     = [True, True, True, True, True, True, True, True, True, False]"
  by code_simp

lemma reformat_nine_mid:
  "reformatTextToNumberedList
     (take 44 (js ''1. a\<newline>2. b\<newline>3. c\<newline>4. d\<newline>5. e\<newline>6. f\<newline>7. g\<newline>8. h\<newline>9. ij'') @ newline #
      drop 44 (js ''1. a\<newline>2. b\<newline>3. c\<newline>4. d\<newline>5. e\<newline>6. f\<newline>7. g\<newline>8. h\<newline>9. ij''))
   = js ''1. a\<newline>2. b\<newline>3. c\<newline>4. d\<newline>5. e\<newline>6. f\<newline>7. g\<newline>8. h\<newline>9. i\<newline>10. j''"
  by code_simp

lemma cursor_nine_mid:
  "spec_cursor_offset (js ''1. a\<newline>2. b\<newline>3. c\<newline>4. d\<newline>5. e\<newline>6. f\<newline>7. g\<newline>8. h\<newline>9. ij'') 44 = 49"
  by code_simp

lemma take_nine_mid:
  "take 49 (js ''1. a\<newline>2. b\<newline>3. c\<newline>4. d\<newline>5. e\<newline>6. f\<newline>7. g\<newline>8. h\<newline>9. i\<newline>10. j'')
    = js ''1. a\<newline>2. b\<newline>3. c\<newline>4. d\<newline>5. e\<newline>6. f\<newline>7. g\<newline>8. h\<newline>9. i\<newline>10. ''"
  by code_simp


text \<open>
  With the buffer \<open>"1. a\n2. b"\<close> and the cursor right after \<open>a\<close> (offset 4), the
  committed buffer is not \<open>"1. a\n2. \n3. b"\<close> and the pending cursor is not the
  offset 8 right after a \<open>"2. "\<close> on the second line.
\<close>

theorem no_new_item_after_a:
  "buffer (handleKeyDown ''Enter'' 4 (mounted (js ''1. a\<newline>2. b''))) \<noteq> js ''1. a\<newline>2. \<newline>3. b'' \<and>
   cursorPosition (handleKeyDown ''Enter'' 4 (mounted (js ''1. a\<newline>2. b''))) \<noteq> Some 8"
  by (simp add: handleKeyDown_Enter mounted_def triggerChange_def reformat_a_b cursor_a_b a_b_differs)

text \<open>
  Claim C4, amended. With the buffer \<open>"1. a\n2. b"\<close> and the cursor right after
  \<open>a\<close>, the line-break handler commits \<open>"1. a\n\n2. b"\<close>: the new second line is
  empty, so the Reformatter leaves it without a numeral and \<open>b\<close> stays item 2. The
  pending cursor is offset 5, the start of that empty line.
\<close>

theorem enter_after_a:
  "handleKeyDown ''Enter'' 4 (s\<lparr>buffer := js ''1. a\<newline>2. b''\<rparr>) =
     s\<lparr>buffer := js ''1. a\<newline>\<newline>2. b'', cursorPosition := Some 5,
       changes := changes s @ [js ''1. a\<newline>\<newline>2. b'']\<rparr>"
  by (simp add: handleKeyDown_Enter triggerChange_def reformat_a_b cursor_a_b)

text \<open>
  A list of nine items with the cursor at the end of item 9: after the line break the
  buffer is the same nine items followed by an empty tenth line. There is no item 10,
  and the cursor is put at the end of the buffer.
\<close>

theorem enter_at_end_of_item_9:
  "buffer (handleKeyDown ''Enter'' 44 (mounted (js ''1. a\<newline>2. b\<newline>3. c\<newline>4. d\<newline>5. e\<newline>6. f\<newline>7. g\<newline>8. h\<newline>9. i'')))
     = js ''1. a\<newline>2. b\<newline>3. c\<newline>4. d\<newline>5. e\<newline>6. f\<newline>7. g\<newline>8. h\<newline>9. i\<newline>'' \<and>
   map nonblank (split_nl (buffer (handleKeyDown ''Enter'' 44 (mounted (js ''1. a\<newline>2. b\<newline>3. c\<newline>4. d\<newline>5. e\<newline>6. f\<newline>7. g\<newline>8. h\<newline>9. i'')))))
     = [True, True, True, True, True, True, True, True, True, False] \<and>
   cursorPosition (handleKeyDown ''Enter'' 44 (mounted (js ''1. a\<newline>2. b\<newline>3. c\<newline>4. d\<newline>5. e\<newline>6. f\<newline>7. g\<newline>8. h\<newline>9. i'')))
     = Some 45"
  by (simp add: handleKeyDown_Enter mounted_def triggerChange_def reformat_nine_end cursor_nine_end lines_nine_end)

text \<open>
  Claim C5, amended. For every buffer and cursor offset the handler's pending cursor is
  the offset the specification describes: the lengths of the lines of the reformatted
  output in front of the target line (index \<open>previousLineIndex + 1\<close>), one more for
  each of their line breaks, plus the length of the target line's numeral prefix when it
  has one, and the end of the buffer if the target line did not exist. The target line
  always exists. The text in front of the cursor is exactly the lines before the target
  line, a line break, and the target line's numeral prefix; that prefix is the ordinal
  of the target line, a dot and a space when the line is non-blank, and absent
  when it is blank. For a list of nine items with the cursor on item 9 a tenth item
  appears when non-blank text follows the cursor on that line: splitting \<open>"9. ij"\<close>
  between \<open>i\<close> and \<open>j\<close> gives \<open>"9. i\n10. j"\<close> with the cursor right after
  \<open>"10. "\<close>.
\<close>

theorem line_break_cursor_offset:
  "cursorPosition (handleKeyDown ''Enter'' n s) = Some (spec_cursor_offset (buffer s) n) \<and>
   buffer (handleKeyDown ''Enter'' n s) =
     reformatTextToNumberedList (with_line_break (buffer s) n) \<and>
   previousLineIndex (buffer s) n + 1 <
     length (split_nl (reformatTextToNumberedList (with_line_break (buffer s) n))) \<and>
   take (spec_cursor_offset (buffer s) n)
        (reformatTextToNumberedList (with_line_break (buffer s) n)) =
     join_nl (take (previousLineIndex (buffer s) n + 1)
                (split_nl (reformatTextToNumberedList (with_line_break (buffer s) n)))) @
     newline #
     (case prefixMatch
             (split_nl (reformatTextToNumberedList (with_line_break (buffer s) n)) !
                (previousLineIndex (buffer s) n + 1))
      of Some m \<Rightarrow> m | None \<Rightarrow> []) \<and>
   prefixMatch (split_nl (reformatTextToNumberedList (with_line_break (buffer s) n)) !
                  (previousLineIndex (buffer s) n + 1)) =
     (if nonblank (split_nl (with_line_break (buffer s) n) ! (previousLineIndex (buffer s) n + 1))
      then Some (show_nat (ordinal (split_nl (with_line_break (buffer s) n))
                             (previousLineIndex (buffer s) n + 1)) @ js ''. '')
      else None) \<and>
   buffer (handleKeyDown ''Enter'' 44 (mounted (js ''1. a\<newline>2. b\<newline>3. c\<newline>4. d\<newline>5. e\<newline>6. f\<newline>7. g\<newline>8. h\<newline>9. ij'')))
     = js ''1. a\<newline>2. b\<newline>3. c\<newline>4. d\<newline>5. e\<newline>6. f\<newline>7. g\<newline>8. h\<newline>9. i\<newline>10. j'' \<and>
   cursorPosition (handleKeyDown ''Enter'' 44 (mounted (js ''1. a\<newline>2. b\<newline>3. c\<newline>4. d\<newline>5. e\<newline>6. f\<newline>7. g\<newline>8. h\<newline>9. ij'')))
     = Some 49 \<and>
   take 49 (js ''1. a\<newline>2. b\<newline>3. c\<newline>4. d\<newline>5. e\<newline>6. f\<newline>7. g\<newline>8. h\<newline>9. i\<newline>10. j'')
     = js ''1. a\<newline>2. b\<newline>3. c\<newline>4. d\<newline>5. e\<newline>6. f\<newline>7. g\<newline>8. h\<newline>9. i\<newline>10. ''"
proof -
  have 1: "cursorPosition (handleKeyDown ''Enter'' n s) = Some (spec_cursor_offset (buffer s) n)"
    by (simp add: handleKeyDown_Enter triggerChange_def)
  have 2: "buffer (handleKeyDown ''Enter'' n s) =
     reformatTextToNumberedList (with_line_break (buffer s) n)"
    by (simp add: handleKeyDown_Enter triggerChange_def)
  have 3: "buffer (handleKeyDown ''Enter'' 44 (mounted (js ''1. a\<newline>2. b\<newline>3. c\<newline>4. d\<newline>5. e\<newline>6. f\<newline>7. g\<newline>8. h\<newline>9. ij'')))
     = js ''1. a\<newline>2. b\<newline>3. c\<newline>4. d\<newline>5. e\<newline>6. f\<newline>7. g\<newline>8. h\<newline>9. i\<newline>10. j''"
    by (simp add: handleKeyDown_Enter triggerChange_def mounted_def reformat_nine_mid)
  have 4: "cursorPosition (handleKeyDown ''Enter'' 44 (mounted (js ''1. a\<newline>2. b\<newline>3. c\<newline>4. d\<newline>5. e\<newline>6. f\<newline>7. g\<newline>8. h\<newline>9. ij'')))
     = Some 49"
    by (simp add: handleKeyDown_Enter triggerChange_def mounted_def cursor_nine_mid)
  from 1 2 target_line_exists [where b = "buffer s" and n = n]
    text_before_cursor [where b = "buffer s" and n = n]
    target_line_prefix [where b = "buffer s" and n = n] 3 4 take_nine_mid
  show ?thesis by blast
qed


section \<open>Blur and the correction call\<close>

lemma handleBlur_buffer:
  "buffer (handleBlur p s) =
     (case onAutoCorrect p of
        None \<Rightarrow> reformatTextToNumberedList (buffer s)
      | Some correct \<Rightarrow>
          if \<not> readOnly p \<and> trim (reformatTextToNumberedList (buffer s)) \<noteq> []
          then (case correct (reformatTextToNumberedList (buffer s)) of
                  Resolved correctedValue \<Rightarrow> correctedValue
                | Rejected \<Rightarrow> reformatTextToNumberedList (buffer s))
          else reformatTextToNumberedList (buffer s))"
  by (simp add: handleBlur_def Let_def triggerChange_def split: option.split outcome.split)

lemma handleBlur_changes:
  "changes (handleBlur p s) =
     changes s @ (if buffer (handleBlur p s) \<noteq> buffer s then [buffer (handleBlur p s)] else [])"
  by (simp add: handleBlur_def Let_def triggerChange_def split: option.split outcome.split)

lemma handleBlur_isCorrecting:
  "isCorrecting (handleBlur p s) =
     (case onAutoCorrect p of
        None \<Rightarrow> isCorrecting s
      | Some correct \<Rightarrow>
          if \<not> readOnly p \<and> trim (reformatTextToNumberedList (buffer s)) \<noteq> []
          then False else isCorrecting s)"
  by (simp add: handleBlur_def Let_def triggerChange_def split: option.split outcome.split)

lemma handleBlur_awaiting: "awaiting (handleBlur p s) = awaiting s"
  by (simp add: handleBlur_def Let_def triggerChange_def split: option.split outcome.split)

lemma handleBlur_cursorPosition: "cursorPosition (handleBlur p s) = cursorPosition s"
  by (simp add: handleBlur_def Let_def triggerChange_def split: option.split outcome.split)

lemma handleBlur_begin_no_call:
  "onAutoCorrect p = None \<or> readOnly p \<or> trim (reformatTextToNumberedList (buffer s)) = [] \<Longrightarrow>
   handleBlur_begin p s = handleBlur p s"
  by (auto simp: handleBlur_begin_def handleBlur_def Let_def split: option.split)

lemma handleBlur_begin_call:
  "onAutoCorrect p = Some correct \<Longrightarrow> \<not> readOnly p \<Longrightarrow>
   trim (reformatTextToNumberedList (buffer s)) \<noteq> [] \<Longrightarrow>
   handleBlur_begin p s =
     s\<lparr>isCorrecting := True,
       awaiting := awaiting s @
         [\<lparr>currentValue = buffer s,
           formattedValue = reformatTextToNumberedList (buffer s),
           promise = correct (reformatTextToNumberedList (buffer s))\<rparr>]\<rparr>"
  by (simp add: handleBlur_begin_def Let_def)

lemma handleBlur_resume_flag: "\<not> isCorrecting (handleBlur_resume c s)"
  by (simp add: handleBlur_resume_def Let_def)

lemma handleBlur_resume_awaiting: "awaiting (handleBlur_resume c s) = awaiting s"
  by (simp add: handleBlur_resume_def Let_def triggerChange_def split: outcome.split)

lemma handleBlur_in_two_steps:
  assumes "\<not> readOnly p"
  shows "run p s [Blur, Settled (length (awaiting s))] = handleBlur p s"
proof (cases "onAutoCorrect p = None \<or> trim (reformatTextToNumberedList (buffer s)) = []")
  case True
  then have "handleBlur_begin p s = handleBlur p s"
    by (intro handleBlur_begin_no_call) blast
  with assms show ?thesis
    by (simp add: run_def handleBlur_awaiting)
next
  case False
  then obtain correct where c: "onAutoCorrect p = Some correct"
    and t: "trim (reformatTextToNumberedList (buffer s)) \<noteq> []" by auto
  show ?thesis
    using assms t
    by (simp add: run_def handleBlur_begin_call [OF c assms t] handleBlur_resume_def
          handleBlur_def c Let_def triggerChange_def split: outcome.split)
qed


lemma handleBlur_resume_buffer:
  "buffer (handleBlur_resume c s) =
     (if settled_text c \<noteq> currentValue c then settled_text c else buffer s)"
  by (auto simp: handleBlur_resume_def Let_def triggerChange_def split: outcome.split)

lemma handleBlur_resume_changes:
  "changes (handleBlur_resume c s) =
     changes s @ (if settled_text c \<noteq> currentValue c then [settled_text c] else [])"
  by (auto simp: handleBlur_resume_def Let_def triggerChange_def split: outcome.split)

lemma step_Settled_buffer:
  "i < length (awaiting s) \<Longrightarrow>
   buffer (step p s (Settled i)) =
     (if settled_text (awaiting s ! i) \<noteq> currentValue (awaiting s ! i)
      then settled_text (awaiting s ! i) else buffer s)"
  by (simp add: handleBlur_resume_buffer)

lemma step_Settled_changes:
  "i < length (awaiting s) \<Longrightarrow>
   changes (step p s (Settled i)) =
     changes s @ (if settled_text (awaiting s ! i) \<noteq> currentValue (awaiting s ! i)
                  then [settled_text (awaiting s ! i)] else [])"
  by (simp add: handleBlur_resume_changes)

lemma run_append: "run p s (xs @ ys) = run p (run p s xs) ys"
  by (simp add: run_def)

lemma run_Cons: "run p s (e # es) = run p (step p s e) es"
  by (simp add: run_def)

lemma run_Typed:
  "\<not> readOnly p \<Longrightarrow> run p s (map Typed vs) = s\<lparr>buffer := last (buffer s # vs)\<rparr>"
proof (induction vs arbitrary: s)
  case Nil
  then show ?case by (simp add: run_def)
next
  case (Cons v vs)
  from Cons.IH [OF Cons.prems, of "s\<lparr>buffer := v\<rparr>"] Cons.prems
  show ?case by (simp add: run_Cons)
qed

lemma blur_typing_settle:
  assumes "onAutoCorrect p = Some correct" and "\<not> readOnly p"
    and "trim (reformatTextToNumberedList (buffer s)) \<noteq> []"
  shows "run p s (Blur # map Typed vs @ [Settled (length (awaiting s))]) =
           handleBlur_resume
             \<lparr>currentValue = buffer s,
               formattedValue = reformatTextToNumberedList (buffer s),
               promise = correct (reformatTextToNumberedList (buffer s))\<rparr>
             (s\<lparr>isCorrecting := True, buffer := last (buffer s # vs)\<rparr>)"
proof -
  let ?c = "\<lparr>currentValue = buffer s,
               formattedValue = reformatTextToNumberedList (buffer s),
               promise = correct (reformatTextToNumberedList (buffer s))\<rparr>"
  let ?s1 = "s\<lparr>isCorrecting := True, awaiting := awaiting s @ [?c]\<rparr>"
  have 1: "step p s Blur = ?s1"
    using assms(2) by (simp add: handleBlur_begin_call [OF assms])
  have 2: "run p ?s1 (map Typed vs) = ?s1\<lparr>buffer := last (buffer ?s1 # vs)\<rparr>"
    by (rule run_Typed [OF assms(2)])
  have "run p s (Blur # map Typed vs @ [Settled (length (awaiting s))]) =
          step p (run p ?s1 (map Typed vs)) (Settled (length (awaiting s)))"
    by (simp only: run_Cons run_append 1) (simp add: run_def)
  also have "\<dots> = handleBlur_resume ?c (s\<lparr>isCorrecting := True, buffer := last (buffer s # vs)\<rparr>)"
    unfolding 2 by simp
  finally show ?thesis .
qed

lemma reformat_a: "reformatTextToNumberedList (js ''a'') = js ''1. a''"
  by code_simp

lemma reformat_1a: "reformatTextToNumberedList (js ''1. a'') = js ''1. a''"
  by code_simp

lemma trim_1a: "trim (js ''1. a'') \<noteq> []"
  by code_simp

lemma strings_differ:
  "js ''1. a'' \<noteq> js ''a''" "js ''1. A'' \<noteq> js ''a''" "js ''a'' \<noteq> js ''1. a''"
  by code_simp+

text \<open>
  Claim C6. When the correction capability is present, the field is editable and the
  reformatted text is not blank, the blur handler sets \<open>isCorrecting\<close>, calls the
  capability and, once the call has settled, leaves \<open>isCorrecting\<close> false whether the
  call resolved or rejected. If the call rejects, the buffer after the blur is the
  locally reformatted text, reported through \<open>onChange\<close> exactly when it differs from
  the buffer at blur time. The same holds for the resumed handler in any later state:
  it clears the flag, and after a rejection it commits the reformatted text it captured
  when that differs from the captured buffer.
\<close>

theorem blur_failing_correction:
  assumes "onAutoCorrect p = Some correct" and "\<not> readOnly p"
    and "trim (reformatTextToNumberedList (buffer s)) \<noteq> []"
  shows "isCorrecting (handleBlur_begin p s) \<and>
         run p s [Blur, Settled (length (awaiting s))] = handleBlur p s \<and>
         \<not> isCorrecting (handleBlur p s) \<and>
         (correct (reformatTextToNumberedList (buffer s)) = Rejected \<longrightarrow>
            buffer (handleBlur p s) = reformatTextToNumberedList (buffer s) \<and>
            changes (handleBlur p s) =
              changes s @ (if reformatTextToNumberedList (buffer s) \<noteq> buffer s
                           then [reformatTextToNumberedList (buffer s)] else [])) \<and>
         \<not> isCorrecting (handleBlur_resume c s') \<and>
         (promise c = Rejected \<and> formattedValue c \<noteq> currentValue c \<longrightarrow>
            buffer (handleBlur_resume c s') = formattedValue c)"
proof (intro conjI impI)
  show "isCorrecting (handleBlur_begin p s)"
    by (simp add: handleBlur_begin_call [OF assms])
  show "run p s [Blur, Settled (length (awaiting s))] = handleBlur p s"
    by (rule handleBlur_in_two_steps [OF assms(2)])
  show "\<not> isCorrecting (handleBlur p s)"
    using assms by (simp add: handleBlur_isCorrecting)
next
  assume r: "correct (reformatTextToNumberedList (buffer s)) = Rejected"
  with assms show b: "buffer (handleBlur p s) = reformatTextToNumberedList (buffer s)"
    by (simp add: handleBlur_buffer)
  show "changes (handleBlur p s) =
          changes s @ (if reformatTextToNumberedList (buffer s) \<noteq> buffer s
                       then [reformatTextToNumberedList (buffer s)] else [])"
    by (simp only: handleBlur_changes [of p s] b)
next
  show "\<not> isCorrecting (handleBlur_resume c s')"
    by (rule handleBlur_resume_flag)
next
  assume "promise c = Rejected \<and> formattedValue c \<noteq> currentValue c"
  then show "buffer (handleBlur_resume c s') = formattedValue c"
    by (auto simp: handleBlur_resume_def triggerChange_def)
qed

theorem blur_failing_correction_witness:
  "onAutoCorrect \<lparr>onAutoCorrect = Some (\<lambda>t. Rejected), readOnly = False\<rparr> = Some (\<lambda>t. Rejected) \<and>
   \<not> readOnly \<lparr>onAutoCorrect = Some (\<lambda>t. Rejected), readOnly = False\<rparr> \<and>
   trim (reformatTextToNumberedList (buffer (mounted (js ''a'')))) \<noteq> [] \<and>
   \<not> isCorrecting (handleBlur \<lparr>onAutoCorrect = Some (\<lambda>t. Rejected), readOnly = False\<rparr> (mounted (js ''a''))) \<and>
   buffer (handleBlur \<lparr>onAutoCorrect = Some (\<lambda>t. Rejected), readOnly = False\<rparr> (mounted (js ''a''))) = js ''1. a'' \<and>
   changes (handleBlur \<lparr>onAutoCorrect = Some (\<lambda>t. Rejected), readOnly = False\<rparr> (mounted (js ''a''))) = [js ''1. a''] \<and>
   buffer (handleBlur_resume
             \<lparr>currentValue = js ''a'', formattedValue = js ''1. a'', promise = Rejected\<rparr>
             (mounted (js ''ab''))) = js ''1. a''"
proof -
  let ?p = "\<lparr>onAutoCorrect = Some (\<lambda>t. Rejected), readOnly = False\<rparr>"
  let ?s = "mounted (js ''a'')"
  have h1: "onAutoCorrect ?p = Some (\<lambda>t. Rejected)" by simp
  have h2: "\<not> readOnly ?p" by simp
  have h3: "trim (reformatTextToNumberedList (buffer ?s)) \<noteq> []"
    by (simp add: mounted_def reformat_a trim_1a)
  let ?c = "\<lparr>currentValue = js ''a'', formattedValue = js ''1. a'', promise = Rejected\<rparr>"
  have h4: "promise ?c = Rejected \<and> formattedValue ?c \<noteq> currentValue ?c"
    by (simp add: strings_differ)
  from blur_failing_correction [OF h1 h2 h3, where c = ?c and s' = "mounted (js ''ab'')"] h4
  have r: "buffer (handleBlur_resume ?c (mounted (js ''ab''))) = js ''1. a''"
    by simp
  from blur_failing_correction [OF h1 h2 h3, where c = ?c and s' = "mounted (js ''ab'')"]
    h1 h2 h3 r show ?thesis
    by (simp add: mounted_def reformat_a strings_differ)
qed

text \<open>
  Claim C7. When the correction call resolves with a text that differs from the buffer
  captured at blur time, that text is committed: it is reported through \<open>onChange\<close>
  and is the buffer afterwards. This holds when the handler runs from blur to end
  undisturbed, when the user types any number of times between the blur and the
  settling of the call (the corrected text then replaces what was typed), and for the
  resumed handler and the settling step in any later state: the comparison is with the
  buffer captured at blur time, not with the buffer at the time the call settles.
\<close>

theorem blur_succeeding_correction:
  assumes "onAutoCorrect p = Some correct" and "\<not> readOnly p"
    and "trim (reformatTextToNumberedList (buffer s)) \<noteq> []"
    and "correct (reformatTextToNumberedList (buffer s)) = Resolved correctedValue"
    and "correctedValue \<noteq> buffer s"
  shows "buffer (handleBlur p s) = correctedValue \<and>
         changes (handleBlur p s) = changes s @ [correctedValue] \<and>
         buffer (run p s (Blur # map Typed vs @ [Settled (length (awaiting s))]))
           = correctedValue \<and>
         changes (run p s (Blur # map Typed vs @ [Settled (length (awaiting s))]))
           = changes s @ [correctedValue] \<and>
         (promise c = Resolved v \<and> v \<noteq> currentValue c \<longrightarrow>
            buffer (handleBlur_resume c s') = v \<and>
            changes (handleBlur_resume c s') = changes s' @ [v]) \<and>
         (i < length (awaiting s') \<and> promise (awaiting s' ! i) = Resolved v \<and>
          v \<noteq> currentValue (awaiting s' ! i) \<longrightarrow>
            buffer (step p s' (Settled i)) = v \<and>
            changes (step p s' (Settled i)) = changes s' @ [v])"
proof (intro conjI impI)
  from assms show b: "buffer (handleBlur p s) = correctedValue"
    by (simp add: handleBlur_buffer)
  from assms(5) show "changes (handleBlur p s) = changes s @ [correctedValue]"
    by (simp add: handleBlur_changes [of p s] b)
next
  let ?r = "run p s (Blur # map Typed vs @ [Settled (length (awaiting s))])"
  note r = blur_typing_settle [OF assms(1,2,3), of vs]
  from assms(4,5) show "buffer ?r = correctedValue"
    unfolding r by (simp add: handleBlur_resume_buffer)
  from assms(4,5) show "changes ?r = changes s @ [correctedValue]"
    unfolding r by (simp add: handleBlur_resume_changes)
next
  assume a: "promise c = Resolved v \<and> v \<noteq> currentValue c"
  then show "buffer (handleBlur_resume c s') = v"
    by (simp add: handleBlur_resume_buffer)
  from a show "changes (handleBlur_resume c s') = changes s' @ [v]"
    by (simp add: handleBlur_resume_changes)
next
  assume a: "i < length (awaiting s') \<and> promise (awaiting s' ! i) = Resolved v \<and>
          v \<noteq> currentValue (awaiting s' ! i)"
  then show "buffer (step p s' (Settled i)) = v"
    by (simp add: step_Settled_buffer del: step.simps)
  from a show "changes (step p s' (Settled i)) = changes s' @ [v]"
    by (simp add: step_Settled_changes del: step.simps)
qed

theorem blur_succeeding_correction_witness:
  "onAutoCorrect \<lparr>onAutoCorrect = Some (\<lambda>t. Resolved (js ''1. A'')), readOnly = False\<rparr>
     = Some (\<lambda>t. Resolved (js ''1. A'')) \<and>
   \<not> readOnly \<lparr>onAutoCorrect = Some (\<lambda>t. Resolved (js ''1. A'')), readOnly = False\<rparr> \<and>
   trim (reformatTextToNumberedList (buffer (mounted (js ''a'')))) \<noteq> [] \<and>
   js ''1. A'' \<noteq> buffer (mounted (js ''a'')) \<and>
   buffer (handleBlur \<lparr>onAutoCorrect = Some (\<lambda>t. Resolved (js ''1. A'')), readOnly = False\<rparr>
             (mounted (js ''a''))) = js ''1. A'' \<and>
   changes (handleBlur \<lparr>onAutoCorrect = Some (\<lambda>t. Resolved (js ''1. A'')), readOnly = False\<rparr>
             (mounted (js ''a''))) = [js ''1. A''] \<and>
   buffer (run \<lparr>onAutoCorrect = Some (\<lambda>t. Resolved (js ''1. A'')), readOnly = False\<rparr>
             (mounted (js ''a'')) [Blur, Typed (js ''b''), Settled 0]) = js ''1. A'' \<and>
   changes (run \<lparr>onAutoCorrect = Some (\<lambda>t. Resolved (js ''1. A'')), readOnly = False\<rparr>
             (mounted (js ''a'')) [Blur, Typed (js ''b''), Settled 0]) = [js ''1. A''] \<and>
   buffer (handleBlur_resume
             \<lparr>currentValue = js ''a'', formattedValue = js ''1. a'',
               promise = Resolved (js ''1. A'')\<rparr>
             (mounted (js ''b''))) = js ''1. A'' \<and>
   buffer (step \<lparr>onAutoCorrect = Some (\<lambda>t. Resolved (js ''1. A'')), readOnly = False\<rparr>
             \<lparr>buffer = js ''b'', cursorPosition = None, isCorrecting = True, changes = [],
              awaiting = [\<lparr>currentValue = js ''a'', formattedValue = js ''1. a'',
                            promise = Resolved (js ''1. A'')\<rparr>]\<rparr>
             (Settled 0)) = js ''1. A''"
proof -
  let ?p = "\<lparr>onAutoCorrect = Some (\<lambda>t. Resolved (js ''1. A'')), readOnly = False\<rparr>"
  let ?s = "mounted (js ''a'')"
  let ?c = "\<lparr>currentValue = js ''a'', formattedValue = js ''1. a'',
             promise = Resolved (js ''1. A'')\<rparr>"
  let ?s' = "\<lparr>buffer = js ''b'', cursorPosition = None, isCorrecting = True, changes = [],
              awaiting = [?c]\<rparr>"
  have h1: "onAutoCorrect ?p = Some (\<lambda>t. Resolved (js ''1. A''))" by simp
  have h2: "\<not> readOnly ?p" by simp
  have h3: "trim (reformatTextToNumberedList (buffer ?s)) \<noteq> []"
    by (simp add: mounted_def reformat_a trim_1a)
  have h4: "(\<lambda>t. Resolved (js ''1. A'')) (reformatTextToNumberedList (buffer ?s))
              = Resolved (js ''1. A'')" by simp
  have h5: "js ''1. A'' \<noteq> buffer ?s" by (simp add: mounted_def strings_differ)
  have f: "changes ?s = []" "length (awaiting ?s) = 0" by (simp_all add: mounted_def)
  have k1: "promise ?c = Resolved (js ''1. A'') \<and> js ''1. A'' \<noteq> currentValue ?c"
    by (simp add: strings_differ)
  have k2: "0 < length (awaiting ?s') \<and> promise (awaiting ?s' ! 0) = Resolved (js ''1. A'') \<and>
            js ''1. A'' \<noteq> currentValue (awaiting ?s' ! 0)"
    by (simp add: strings_differ)
  note inst = blur_succeeding_correction [OF h1 h2 h3 h4 h5,
      where vs = "[js ''b'']" and c = ?c and v = "js ''1. A''" and s' = "mounted (js ''b'')"]
  note inst' = blur_succeeding_correction [OF h1 h2 h3 h4 h5,
      where v = "js ''1. A''" and s' = ?s' and i = 0]
  from inst have a: "buffer (handleBlur ?p ?s) = js ''1. A''"
    "changes (handleBlur ?p ?s) = [js ''1. A'']"
    "buffer (run ?p ?s [Blur, Typed (js ''b''), Settled 0]) = js ''1. A''"
    "changes (run ?p ?s [Blur, Typed (js ''b''), Settled 0]) = [js ''1. A'']"
    by (simp_all add: f)
  from inst k1 have b: "buffer (handleBlur_resume ?c (mounted (js ''b''))) = js ''1. A''"
    by blast
  from inst' k2 have c: "buffer (step ?p ?s' (Settled 0)) = js ''1. A''"
    by blast
  from h1 h2 h3 h5 a b c show ?thesis by blast
qed

text \<open>
  An editable field holding \<open>"a"\<close> with a correction capability that resolves with
  \<open>"a"\<close>: the handler commits nothing, and the buffer after the blur is the buffer
  found at blur time, which is not the reformatted text \<open>"1. a"\<close>.
\<close>

theorem correction_returning_raw_text:
  "buffer (handleBlur \<lparr>onAutoCorrect = Some (\<lambda>t. Resolved (js ''a'')), readOnly = False\<rparr>
             (mounted (js ''a''))) = js ''a'' \<and>
   changes (handleBlur \<lparr>onAutoCorrect = Some (\<lambda>t. Resolved (js ''a'')), readOnly = False\<rparr>
             (mounted (js ''a''))) = [] \<and>
   reformatTextToNumberedList (js ''a'') = js ''1. a'' \<and>
   js ''a'' \<noteq> js ''1. a''"
  by (simp add: handleBlur_def Let_def mounted_def reformat_a trim_1a strings_differ)

text \<open>
  Claim C8, amended. A read-only field has no blur handler: its blur changes nothing.
  On every blur of an editable field the buffer is reformatted first. With no correction
  capability, or with reformatted text that is blank, the blur commits the reformatted
  text when it differs from the buffer and does nothing else: nothing is left
  outstanding and \<open>isCorrecting\<close> is not touched. Otherwise the blur starts one
  correction call on the reformatted text and suspends, holding the buffer and the
  reformatted text of that moment. When the call settles, in whatever state the field
  then is, the handler offers the correction's result if the call resolved and the
  reformatted text it holds if the call rejected, and commits the offered text exactly
  when it differs from the buffer it captured at blur time; otherwise the buffer of that
  moment stays as it is. So every value the handler commits is the correction's result
  or the locally reformatted text and differs from the buffer found at blur time; with
  nothing in between, the buffer after the blur is the correction's result or the
  reformatted text; and with typing in between, the buffer at the end is the offered
  text, or the last text typed when the offered text equals the captured buffer.
\<close>

theorem blur_degrades_to_formatting:
  "(readOnly p \<longrightarrow> step p s Blur = s) \<and>
   (\<not> readOnly p \<and>
    (onAutoCorrect p = None \<or> trim (reformatTextToNumberedList (buffer s)) = []) \<longrightarrow>
      step p s Blur = handleBlur p s \<and>
      buffer (step p s Blur) = reformatTextToNumberedList (buffer s) \<and>
      changes (step p s Blur) =
        changes s @ (if reformatTextToNumberedList (buffer s) \<noteq> buffer s
                     then [reformatTextToNumberedList (buffer s)] else []) \<and>
      awaiting (step p s Blur) = awaiting s \<and>
      isCorrecting (step p s Blur) = isCorrecting s) \<and>
   (\<forall>correct.
      \<not> readOnly p \<and> onAutoCorrect p = Some correct \<and>
      trim (reformatTextToNumberedList (buffer s)) \<noteq> [] \<longrightarrow>
        step p s Blur =
          s\<lparr>isCorrecting := True,
            awaiting := awaiting s @
              [\<lparr>currentValue = buffer s,
                formattedValue = reformatTextToNumberedList (buffer s),
                promise = correct (reformatTextToNumberedList (buffer s))\<rparr>]\<rparr> \<and>
        run p s [Blur, Settled (length (awaiting s))] = handleBlur p s \<and>
        buffer (handleBlur p s) =
          (case correct (reformatTextToNumberedList (buffer s)) of
             Resolved correctedValue \<Rightarrow> correctedValue
           | Rejected \<Rightarrow> reformatTextToNumberedList (buffer s)) \<and>
        changes (handleBlur p s) =
          changes s @ (if buffer (handleBlur p s) \<noteq> buffer s
                       then [buffer (handleBlur p s)] else []) \<and>
        buffer (run p s (Blur # map Typed vs @ [Settled (length (awaiting s))])) =
          (if buffer (handleBlur p s) \<noteq> buffer s then buffer (handleBlur p s)
           else last (buffer s # vs)) \<and>
        changes (run p s (Blur # map Typed vs @ [Settled (length (awaiting s))])) =
          changes s @ (if buffer (handleBlur p s) \<noteq> buffer s
                       then [buffer (handleBlur p s)] else [])) \<and>
   buffer (handleBlur_resume c s') =
     (if settled_text c \<noteq> currentValue c then settled_text c else buffer s') \<and>
   changes (handleBlur_resume c s') =
     changes s' @ (if settled_text c \<noteq> currentValue c then [settled_text c] else []) \<and>
   (i < length (awaiting s') \<longrightarrow>
      buffer (step p s' (Settled i)) =
        (if settled_text (awaiting s' ! i) \<noteq> currentValue (awaiting s' ! i)
         then settled_text (awaiting s' ! i) else buffer s') \<and>
      changes (step p s' (Settled i)) =
        changes s' @ (if settled_text (awaiting s' ! i) \<noteq> currentValue (awaiting s' ! i)
                      then [settled_text (awaiting s' ! i)] else []))"
proof (intro conjI allI impI)
  assume "readOnly p"
  then show "step p s Blur = s" by simp
next
  assume a: "\<not> readOnly p \<and>
    (onAutoCorrect p = None \<or> trim (reformatTextToNumberedList (buffer s)) = [])"
  then have e: "step p s Blur = handleBlur p s"
    by (simp add: handleBlur_begin_no_call)
  from a have b: "buffer (handleBlur p s) = reformatTextToNumberedList (buffer s)"
    by (auto simp: handleBlur_buffer split: option.split)
  from a have f: "isCorrecting (handleBlur p s) = isCorrecting s"
    by (auto simp: handleBlur_isCorrecting split: option.split)
  show "step p s Blur = handleBlur p s" by (rule e)
  show "buffer (step p s Blur) = reformatTextToNumberedList (buffer s)"
    by (simp only: e b)
  show "changes (step p s Blur) =
        changes s @ (if reformatTextToNumberedList (buffer s) \<noteq> buffer s
                     then [reformatTextToNumberedList (buffer s)] else [])"
    by (simp only: e handleBlur_changes [of p s] b)
  show "awaiting (step p s Blur) = awaiting s"
    by (simp only: e handleBlur_awaiting)
  show "isCorrecting (step p s Blur) = isCorrecting s"
    by (simp only: e f)
next
  fix correct
  assume a: "\<not> readOnly p \<and> onAutoCorrect p = Some correct \<and>
      trim (reformatTextToNumberedList (buffer s)) \<noteq> []"
  then have r: "\<not> readOnly p" and c: "onAutoCorrect p = Some correct"
    and t: "trim (reformatTextToNumberedList (buffer s)) \<noteq> []" by blast+
  let ?c = "\<lparr>currentValue = buffer s,
             formattedValue = reformatTextToNumberedList (buffer s),
             promise = correct (reformatTextToNumberedList (buffer s))\<rparr>"
  show "step p s Blur = s\<lparr>isCorrecting := True, awaiting := awaiting s @ [?c]\<rparr>"
    using r by (simp add: handleBlur_begin_call [OF c r t])
  show "run p s [Blur, Settled (length (awaiting s))] = handleBlur p s"
    by (rule handleBlur_in_two_steps [OF r])
  show b: "buffer (handleBlur p s) =
          (case correct (reformatTextToNumberedList (buffer s)) of
             Resolved correctedValue \<Rightarrow> correctedValue
           | Rejected \<Rightarrow> reformatTextToNumberedList (buffer s))"
    using r c t by (simp add: handleBlur_buffer)
  show "changes (handleBlur p s) =
          changes s @ (if buffer (handleBlur p s) \<noteq> buffer s
                       then [buffer (handleBlur p s)] else [])"
    by (rule handleBlur_changes)
  have st: "settled_text ?c = buffer (handleBlur p s)"
    unfolding b by (simp split: outcome.split)
  show "buffer (run p s (Blur # map Typed vs @ [Settled (length (awaiting s))])) =
          (if buffer (handleBlur p s) \<noteq> buffer s then buffer (handleBlur p s)
           else last (buffer s # vs))"
    unfolding blur_typing_settle [OF c r t] handleBlur_resume_buffer st by simp
  show "changes (run p s (Blur # map Typed vs @ [Settled (length (awaiting s))])) =
          changes s @ (if buffer (handleBlur p s) \<noteq> buffer s
                       then [buffer (handleBlur p s)] else [])"
    unfolding blur_typing_settle [OF c r t] handleBlur_resume_changes st by simp
next
  show "buffer (handleBlur_resume c s') =
     (if settled_text c \<noteq> currentValue c then settled_text c else buffer s')"
    by (rule handleBlur_resume_buffer)
  show "changes (handleBlur_resume c s') =
     changes s' @ (if settled_text c \<noteq> currentValue c then [settled_text c] else [])"
    by (rule handleBlur_resume_changes)
next
  assume i: "i < length (awaiting s')"
  show "buffer (step p s' (Settled i)) =
        (if settled_text (awaiting s' ! i) \<noteq> currentValue (awaiting s' ! i)
         then settled_text (awaiting s' ! i) else buffer s')"
    by (rule step_Settled_buffer [OF i])
  show "changes (step p s' (Settled i)) =
        changes s' @ (if settled_text (awaiting s' ! i) \<noteq> currentValue (awaiting s' ! i)
                      then [settled_text (awaiting s' ! i)] else [])"
    by (rule step_Settled_changes [OF i])
qed

theorem blur_degrades_to_formatting_witness:
  "readOnly \<lparr>onAutoCorrect = None, readOnly = True\<rparr> \<and>
   step \<lparr>onAutoCorrect = None, readOnly = True\<rparr> (mounted (js ''a'')) Blur = mounted (js ''a'') \<and>
   \<not> readOnly \<lparr>onAutoCorrect = None, readOnly = False\<rparr> \<and>
   onAutoCorrect \<lparr>onAutoCorrect = None, readOnly = False\<rparr> = None \<and>
   step \<lparr>onAutoCorrect = None, readOnly = False\<rparr> (mounted (js ''a'')) Blur =
     \<lparr>buffer = js ''1. a'', cursorPosition = None, isCorrecting = False,
      changes = [js ''1. a''], awaiting = []\<rparr> \<and>
   trim (reformatTextToNumberedList (buffer (mounted (js ''a'')))) \<noteq> [] \<and>
   buffer (run \<lparr>onAutoCorrect = Some (\<lambda>t. Resolved (js ''a'')), readOnly = False\<rparr>
             (mounted (js ''a'')) [Blur, Typed (js ''b''), Settled 0]) = js ''b'' \<and>
   changes (run \<lparr>onAutoCorrect = Some (\<lambda>t. Resolved (js ''a'')), readOnly = False\<rparr>
             (mounted (js ''a'')) [Blur, Typed (js ''b''), Settled 0]) = [] \<and>
   buffer (run \<lparr>onAutoCorrect = Some (\<lambda>t. Rejected), readOnly = False\<rparr>
             (mounted (js ''a'')) [Blur, Typed (js ''b''), Settled 0]) = js ''1. a'' \<and>
   buffer (step \<lparr>onAutoCorrect = None, readOnly = False\<rparr>
             \<lparr>buffer = js ''b'', cursorPosition = None, isCorrecting = True, changes = [],
              awaiting = [\<lparr>currentValue = js ''a'', formattedValue = js ''1. a'',
                            promise = Resolved (js ''a'')\<rparr>]\<rparr>
             (Settled 0)) = js ''b''"
proof -
  let ?ro = "\<lparr>onAutoCorrect = None, readOnly = True\<rparr>"
  let ?none = "\<lparr>onAutoCorrect = None, readOnly = False\<rparr>"
  let ?same = "\<lparr>onAutoCorrect = Some (\<lambda>t. Resolved (js ''a'')), readOnly = False\<rparr>"
  let ?rej = "\<lparr>onAutoCorrect = Some (\<lambda>t. Rejected), readOnly = False\<rparr>"
  let ?s = "mounted (js ''a'')"
  let ?s' = "\<lparr>buffer = js ''b'', cursorPosition = None, isCorrecting = True, changes = [],
              awaiting = [\<lparr>currentValue = js ''a'', formattedValue = js ''1. a'',
                            promise = Resolved (js ''a'')\<rparr>]\<rparr>"
  have f: "buffer ?s = js ''a''" "changes ?s = []" "length (awaiting ?s) = 0"
    by (simp_all add: mounted_def)
  have t: "trim (reformatTextToNumberedList (buffer ?s)) \<noteq> []"
    by (simp add: mounted_def reformat_a trim_1a)
  have 1: "step ?ro ?s Blur = ?s"
    using blur_degrades_to_formatting [of ?ro ?s] by simp
  have n: "handleBlur ?none ?s =
     \<lparr>buffer = js ''1. a'', cursorPosition = None, isCorrecting = False,
      changes = [js ''1. a''], awaiting = []\<rparr>"
    by (simp add: handleBlur_def Let_def mounted_def reformat_a strings_differ triggerChange_def)
  have hn: "\<not> readOnly ?none \<and>
     (onAutoCorrect ?none = None \<or> trim (reformatTextToNumberedList (buffer ?s)) = [])"
    by simp
  from blur_degrades_to_formatting [of ?none ?s] hn
  have "step ?none ?s Blur = handleBlur ?none ?s" by blast
  with n have 2: "step ?none ?s Blur =
     \<lparr>buffer = js ''1. a'', cursorPosition = None, isCorrecting = False,
      changes = [js ''1. a''], awaiting = []\<rparr>"
    by simp
  have hs: "\<not> readOnly ?same \<and> onAutoCorrect ?same = Some (\<lambda>t. Resolved (js ''a'')) \<and>
     trim (reformatTextToNumberedList (buffer ?s)) \<noteq> []"
    using t by simp
  from blur_degrades_to_formatting [of ?same ?s, where vs = "[js ''b'']"] hs
  have 3: "buffer (run ?same ?s [Blur, Typed (js ''b''), Settled 0]) = js ''b''"
    "changes (run ?same ?s [Blur, Typed (js ''b''), Settled 0]) = []"
    by (simp_all add: f)
  have hr: "\<not> readOnly ?rej \<and> onAutoCorrect ?rej = Some (\<lambda>t. Rejected) \<and>
     trim (reformatTextToNumberedList (buffer ?s)) \<noteq> []"
    using t by simp
  from blur_degrades_to_formatting [of ?rej ?s, where vs = "[js ''b'']"] hr
  have 4: "buffer (run ?rej ?s [Blur, Typed (js ''b''), Settled 0]) = js ''1. a''"
    by (simp add: f reformat_a strings_differ)
  have hi: "0 < length (awaiting ?s')" by simp
  from blur_degrades_to_formatting [where p = ?none and i = 0 and s' = ?s'] hi
  have 5: "buffer (step ?none ?s' (Settled 0)) = js ''b''"
    by simp
  from 1 2 3 4 5 t show ?thesis by simp
qed

text \<open>
  Two blurs in a row on an editable field with a correction capability and the buffer
  \<open>"a"\<close>: after the first \<open>isCorrecting\<close> is set, and after the second two
  correction calls are outstanding.
\<close>

theorem second_blur_starts_second_call:
  "isCorrecting (run \<lparr>onAutoCorrect = Some Resolved, readOnly = False\<rparr> (mounted (js ''a'')) [Blur]) \<and>
   length (awaiting (run \<lparr>onAutoCorrect = Some Resolved, readOnly = False\<rparr> (mounted (js ''a''))
                       [Blur, Blur])) = 2"
  by (simp add: run_def handleBlur_begin_def Let_def mounted_def reformat_a trim_1a)

text \<open>
  Claim C9, amended. \<open>isCorrecting\<close> does not guard the correction capability. A
  blur on a field with the capability present, editable and with non-blank reformatted
  text sets the flag and starts one more correction call, whatever the flag was and
  however many calls are outstanding already; the settling of any outstanding call
  clears the flag and removes that one call only, so the flag can be false while calls
  are outstanding.
\<close>

theorem blur_ignores_flag:
  "(onAutoCorrect p = Some correct \<and> \<not> readOnly p \<and>
    trim (reformatTextToNumberedList (buffer s)) \<noteq> [] \<longrightarrow>
      isCorrecting (step p s Blur) \<and>
      awaiting (step p s Blur) =
        awaiting s @ [\<lparr>currentValue = buffer s,
                       formattedValue = reformatTextToNumberedList (buffer s),
                       promise = correct (reformatTextToNumberedList (buffer s))\<rparr>]) \<and>
   (i < length (awaiting s) \<longrightarrow>
      \<not> isCorrecting (step p s (Settled i)) \<and>
      length (awaiting (step p s (Settled i))) = length (awaiting s) - 1)"
proof (intro conjI impI)
  assume a: "onAutoCorrect p = Some correct \<and> \<not> readOnly p \<and>
    trim (reformatTextToNumberedList (buffer s)) \<noteq> []"
  then have e: "step p s Blur = s\<lparr>isCorrecting := True,
       awaiting := awaiting s @
         [\<lparr>currentValue = buffer s,
           formattedValue = reformatTextToNumberedList (buffer s),
           promise = correct (reformatTextToNumberedList (buffer s))\<rparr>]\<rparr>"
    by (simp add: handleBlur_begin_call)
  show "isCorrecting (step p s Blur)" unfolding e by simp
  show "awaiting (step p s Blur) =
        awaiting s @ [\<lparr>currentValue = buffer s,
                       formattedValue = reformatTextToNumberedList (buffer s),
                       promise = correct (reformatTextToNumberedList (buffer s))\<rparr>]"
    unfolding e by simp
next
  assume i: "i < length (awaiting s)"
  then show "\<not> isCorrecting (step p s (Settled i))"
    by (simp add: handleBlur_resume_flag)
  from i show "length (awaiting (step p s (Settled i))) = length (awaiting s) - 1"
    by (simp add: handleBlur_resume_awaiting) 
qed

theorem blur_ignores_flag_witness:
  "isCorrecting (step \<lparr>onAutoCorrect = Some Resolved, readOnly = False\<rparr> (mounted (js ''a'')) Blur) \<and>
   length (awaiting (step \<lparr>onAutoCorrect = Some Resolved, readOnly = False\<rparr> (mounted (js ''a'')) Blur)) = 1 \<and>
   length (awaiting (step \<lparr>onAutoCorrect = Some Resolved, readOnly = False\<rparr>
                       (step \<lparr>onAutoCorrect = Some Resolved, readOnly = False\<rparr> (mounted (js ''a'')) Blur)
                       Blur)) = 2 \<and>
   \<not> isCorrecting (step \<lparr>onAutoCorrect = Some Resolved, readOnly = False\<rparr>
                       (step \<lparr>onAutoCorrect = Some Resolved, readOnly = False\<rparr> (mounted (js ''a'')) Blur)
                       (Settled 0))"
proof -
  let ?p = "\<lparr>onAutoCorrect = Some Resolved, readOnly = False\<rparr>"
  let ?s0 = "mounted (js ''a'')"
  let ?s1 = "step ?p ?s0 Blur"
  have h0: "onAutoCorrect ?p = Some Resolved \<and> \<not> readOnly ?p \<and>
            trim (reformatTextToNumberedList (buffer ?s0)) \<noteq> []"
    by (simp add: mounted_def reformat_a trim_1a)
  from blur_ignores_flag [of ?p Resolved ?s0 0] h0
  have s1: "isCorrecting ?s1" "awaiting ?s1 = awaiting ?s0 @
            [\<lparr>currentValue = buffer ?s0,
              formattedValue = reformatTextToNumberedList (buffer ?s0),
              promise = Resolved (reformatTextToNumberedList (buffer ?s0))\<rparr>]"
    by blast+
  have b1: "buffer ?s1 = js ''a''"
    by (simp add: handleBlur_begin_def Let_def mounted_def reformat_a trim_1a)
  have len1: "length (awaiting ?s1) = 1" unfolding s1(2) by (simp add: mounted_def)
  have h1: "onAutoCorrect ?p = Some Resolved \<and> \<not> readOnly ?p \<and>
            trim (reformatTextToNumberedList (buffer ?s1)) \<noteq> []"
    using b1 by (simp add: reformat_a trim_1a)
  have pos: "0 < length (awaiting ?s1)" by (simp only: len1)
  from blur_ignores_flag [of ?p Resolved ?s1 0] h1
  have "awaiting (step ?p ?s1 Blur) = awaiting ?s1 @
            [\<lparr>currentValue = buffer ?s1,
              formattedValue = reformatTextToNumberedList (buffer ?s1),
              promise = Resolved (reformatTextToNumberedList (buffer ?s1))\<rparr>]"
    by blast
  then have "length (awaiting (step ?p ?s1 Blur)) = Suc (length (awaiting ?s1))"
    by (simp only: length_append_singleton)
  then have two: "length (awaiting (step ?p ?s1 Blur)) = 2"
    by (simp only: len1)
  from blur_ignores_flag [of ?p Resolved ?s1 0] pos
  have "\<not> isCorrecting (step ?p ?s1 (Settled 0))" by blast
  with two have "length (awaiting (step ?p ?s1 Blur)) = 2"
    "\<not> isCorrecting (step ?p ?s1 (Settled 0))" by blast+
  with s1(1) len1 show ?thesis by blast
qed


end
